theory Spec2Isabelle
  imports Main "HOL-Library.Word" "HOL-Library.Multiset"
begin

chapter \<open>The program\<close>

section \<open>Hash table (HashTable.h)\<close>

text \<open>
  \<^verbatim>\<open>HashTable<K, V>\<close> is an array of \<^verbatim>\<open>capacity\<close> buckets, each a singly linked chain of
  nodes. A chain is modelled as the list of its \<open>(key, value)\<close> nodes from the head on, the
  bucket array as the list of the chains. \<^verbatim>\<open>std::hash<K>\<close> belongs to the standard library
  and is implementation defined, so every operation takes it as the parameter \<open>h\<close>.

  \<^verbatim>\<open>size\<close> and \<^verbatim>\<open>capacity\<close> are \<^verbatim>\<open>size_t\<close>. They are modelled as \<open>nat\<close>: \<^verbatim>\<open>size\<close> counts
  the allocated nodes (invariant \<open>ht_wf\<close> below) and \<^verbatim>\<open>capacity\<close> is the length of the bucket
  vector, so neither wraps. The two load factor tests compare \<^verbatim>\<open>size\<close> with the
  \<^verbatim>\<open>double\<close> products \<^verbatim>\<open>0.7 * capacity\<close> and \<^verbatim>\<open>0.2 * capacity\<close>; on integers that a
  \<^verbatim>\<open>double\<close> holds exactly these are the comparisons \<open>7 * capacity \<le> 10 * size\<close> and
  \<open>5 * size < capacity\<close>, which is how they are written here. The loop of \<^verbatim>\<open>resize\<close>
  runs over the buckets \<open>0, \<dots>, capacity - 1\<close>, which are all the buckets.
\<close>

type_synonym ('k, 'v) chain = "('k \<times> 'v) list"

record ('k, 'v) HashTable =
  table :: "('k, 'v) chain list"
  capacity :: nat
  size_ht :: nat

datatype ht_error = Invalid_argument

text \<open>The constructor: \<^verbatim>\<open>initial_capacity < 1\<close> throws \<^verbatim>\<open>std::invalid_argument\<close>.\<close>

definition HashTable_new :: "nat \<Rightarrow> ht_error + ('k, 'v) HashTable" where
  "HashTable_new initial_capacity =
     (if initial_capacity < 1 then Inl Invalid_argument
      else Inr \<lparr>table = replicate initial_capacity [], capacity = initial_capacity, size_ht = 0\<rparr>)"

text \<open>The default constructed table (\<^verbatim>\<open>initial_capacity = 8\<close>), as \<^verbatim>\<open>StorageEngine\<close> holds it.\<close>

definition HashTable_default :: "('k, 'v) HashTable" where
  "HashTable_default = \<lparr>table = replicate 8 [], capacity = 8, size_ht = 0\<rparr>"

definition hash :: "('k \<Rightarrow> nat) \<Rightarrow> ('k, 'v) HashTable \<Rightarrow> 'k \<Rightarrow> nat" where
  "hash h t key = h key mod capacity t"

text \<open>
  The inner loop of \<^verbatim>\<open>resize\<close>: every node of a chain, from the head on, is pushed on the
  front of its new bucket.
\<close>

fun rehash_chain :: "('k \<Rightarrow> nat) \<Rightarrow> nat \<Rightarrow> ('k, 'v) chain \<Rightarrow> ('k, 'v) chain list \<Rightarrow> ('k, 'v) chain list" where
  "rehash_chain h new_capacity [] new_table = new_table"
| "rehash_chain h new_capacity ((k, v) # rest) new_table =
     (let new_index = h k mod new_capacity
      in rehash_chain h new_capacity rest
           (new_table[new_index := (k, v) # (new_table ! new_index)]))"

definition resize :: "('k \<Rightarrow> nat) \<Rightarrow> ('k, 'v) HashTable \<Rightarrow> nat \<Rightarrow> ('k, 'v) HashTable" where
  "resize h t new_capacity =
     t\<lparr>table := foldl (\<lambda>new_table ch. rehash_chain h new_capacity ch new_table)
                   (replicate new_capacity []) (table t),
       capacity := new_capacity\<rparr>"

text \<open>The chain walks of \<^verbatim>\<open>insert\<close>, \<^verbatim>\<open>get\<close> and \<^verbatim>\<open>remove\<close>; \<open>None\<close> when the key is not met.\<close>

fun chain_update :: "('k, 'v) chain \<Rightarrow> 'k \<Rightarrow> 'v \<Rightarrow> ('k, 'v) chain option" where
  "chain_update [] key v = None"
| "chain_update ((k, w) # rest) key v =
     (if k = key then Some ((k, v) # rest)
      else map_option (\<lambda>r. (k, w) # r) (chain_update rest key v))"

fun chain_get :: "('k, 'v) chain \<Rightarrow> 'k \<Rightarrow> 'v option" where
  "chain_get [] key = None"
| "chain_get ((k, w) # rest) key = (if k = key then Some w else chain_get rest key)"

fun chain_remove :: "('k, 'v) chain \<Rightarrow> 'k \<Rightarrow> ('k, 'v) chain option" where
  "chain_remove [] key = None"
| "chain_remove ((k, w) # rest) key =
     (if k = key then Some rest
      else map_option (\<lambda>r. (k, w) # r) (chain_remove rest key))"

definition ht_insert :: "('k \<Rightarrow> nat) \<Rightarrow> ('k, 'v) HashTable \<Rightarrow> 'k \<Rightarrow> 'v \<Rightarrow> ('k, 'v) HashTable" where
  "ht_insert h t key v =
     (let t1 = (if 7 * capacity t \<le> 10 * size_ht t then resize h t (2 * capacity t) else t);
          index = hash h t1 key
      in case chain_update (table t1 ! index) key v of
           Some ch \<Rightarrow> t1\<lparr>table := (table t1)[index := ch]\<rparr>
         | None \<Rightarrow> t1\<lparr>table := (table t1)[index := (key, v) # (table t1 ! index)],
                      size_ht := size_ht t1 + 1\<rparr>)"

definition ht_get :: "('k \<Rightarrow> nat) \<Rightarrow> ('k, 'v) HashTable \<Rightarrow> 'k \<Rightarrow> 'v option" where
  "ht_get h t key = chain_get (table t ! hash h t key) key"

text \<open>\<^verbatim>\<open>remove\<close> returns whether the key was found, and the table.\<close>

definition ht_remove :: "('k \<Rightarrow> nat) \<Rightarrow> ('k, 'v) HashTable \<Rightarrow> 'k \<Rightarrow> bool \<times> ('k, 'v) HashTable" where
  "ht_remove h t key =
     (let index = hash h t key
      in case chain_remove (table t ! index) key of
           None \<Rightarrow> (False, t)
         | Some ch \<Rightarrow>
             (let t1 = t\<lparr>table := (table t)[index := ch], size_ht := size_ht t - 1\<rparr>
              in (True, if 8 < capacity t1 \<and> 5 * size_ht t1 < capacity t1
                        then resize h t1 (capacity t1 div 2) else t1)))"

section \<open>LRU queue (MemoryManager.h)\<close>

text \<open>\<^verbatim>\<open>lru_queue\<close> is a \<^verbatim>\<open>std::list<std::string>\<close>, most recently used key at the front.\<close>

type_synonym MemoryManager = "string list"

definition update_lru :: "MemoryManager \<Rightarrow> string \<Rightarrow> MemoryManager" where
  "update_lru lru_queue key = key # removeAll key lru_queue"

text \<open>\<^verbatim>\<open>evict_lru()\<close>: the key at the back and the queue without it; \<^verbatim>\<open>""\<close> on an empty queue.\<close>

definition evict_lru :: "MemoryManager \<Rightarrow> string \<times> MemoryManager" where
  "evict_lru lru_queue =
     (if lru_queue \<noteq> [] then (last lru_queue, butlast lru_queue) else ([], lru_queue))"

text \<open>\<^verbatim>\<open>evict_lru(key)\<close>.\<close>

definition evict_lru_key :: "MemoryManager \<Rightarrow> string \<Rightarrow> MemoryManager" where
  "evict_lru_key lru_queue key = removeAll key lru_queue"

section \<open>Storage engine (StorageEngine.h, StorageEngine.cpp)\<close>

text \<open>
  Time points of \<^verbatim>\<open>std::chrono::system_clock\<close> and their differences are integers counting
  nanoseconds; \<^verbatim>\<open>ttl\<close> counts seconds, and \<^verbatim>\<open>std::chrono::seconds::max()\<close> is the
  sentinel for an entry that never expires. Clock readings are not negative and fit 64
  bits, so the difference of two of them does too. Comparing a clock difference with a
  \<^verbatim>\<open>ttl\<close> converts the \<^verbatim>\<open>ttl\<close> to nanoseconds: the count of seconds is multiplied by
  \<open>10\<^sup>9\<close> in a signed integer of 64 bits, and the product of a \<^verbatim>\<open>ttl\<close> above 9223372036
  seconds does not fit; \<open>to_nanoseconds\<close> takes the two's complement result the Linux
  targets of the server compute. \<^verbatim>\<open>current_memory\<close> and \<^verbatim>\<open>max_memory\<close> are
  \<^verbatim>\<open>size_t\<close>, 64 bits wide on those targets, and wrap. The operations
  are modelled one call at a time, each from the state the one before left; how the
  eviction thread interleaves with the callers is not part of the model.
\<close>

record Entry =
  val :: string
  ttl :: int
  last_accessed :: int

definition seconds_max :: int where
  "seconds_max = 9223372036854775807"

definition to_nanoseconds :: "int \<Rightarrow> int" where
  "to_nanoseconds secs = sint (word_of_int (secs * 1000000000) :: 64 word)"

definition expired :: "int \<Rightarrow> Entry \<Rightarrow> bool" where
  "expired now e \<longleftrightarrow> ttl e \<noteq> seconds_max \<and> now - last_accessed e > to_nanoseconds (ttl e)"

record StorageEngine =
  store :: "(string, Entry) HashTable"
  mem_manager :: MemoryManager
  current_memory :: "64 word"
  max_memory :: "64 word"

definition StorageEngine_new :: "64 word \<Rightarrow> StorageEngine" where
  "StorageEngine_new max_mem =
     \<lparr>store = HashTable_default, mem_manager = [], current_memory = 0, max_memory = max_mem\<rparr>"

definition entry_bytes :: "string \<Rightarrow> Entry \<Rightarrow> 64 word" where
  "entry_bytes key e = of_nat (length key) + of_nat (length (val e))"

function enforce_memory_limits :: "(string \<Rightarrow> nat) \<Rightarrow> StorageEngine \<Rightarrow> StorageEngine" where
  "enforce_memory_limits h s =
     (if max_memory s < current_memory s then
        (case evict_lru (mem_manager s) of (key, q) \<Rightarrow>
           if key = [] then s\<lparr>mem_manager := q\<rparr>
           else (case ht_get h (store s) key of
                   Some entry \<Rightarrow>
                     enforce_memory_limits h
                       (s\<lparr>mem_manager := q,
                          current_memory := current_memory s - entry_bytes key entry,
                          store := snd (ht_remove h (store s) key)\<rparr>)
                 | None \<Rightarrow> enforce_memory_limits h (s\<lparr>mem_manager := q\<rparr>)))
      else s)"
  by pat_completeness auto
termination
  by (relation "measure (\<lambda>(h, s). length (mem_manager s))")
     (auto simp: evict_lru_def split: if_splits)

definition StorageEngine_set ::
  "(string \<Rightarrow> nat) \<Rightarrow> StorageEngine \<Rightarrow> string \<Rightarrow> string \<Rightarrow> int \<Rightarrow> int \<Rightarrow> StorageEngine" where
  "StorageEngine_set h s key v ttl_secs now =
     (let new_entry = \<lparr>val = v, ttl = ttl_secs, last_accessed = now\<rparr>;
          cm1 = (case ht_get h (store s) key of
                   Some old_entry \<Rightarrow> current_memory s - entry_bytes key old_entry
                 | None \<Rightarrow> current_memory s);
          st = ht_insert h (store s) key new_entry;
          cm2 = cm1 + (of_nat (length key) + of_nat (length v))
      in enforce_memory_limits h
           (s\<lparr>store := st, current_memory := cm2,
              mem_manager := update_lru (mem_manager s) key\<rparr>))"

text \<open>
  \<^verbatim>\<open>get\<close> reads the clock twice: \<open>now1\<close> is stored as the new \<^verbatim>\<open>last_accessed\<close>, \<open>now2\<close> is
  the reading the expiry test compares against it.
\<close>

definition StorageEngine_get ::
  "(string \<Rightarrow> nat) \<Rightarrow> StorageEngine \<Rightarrow> string \<Rightarrow> int \<Rightarrow> int \<Rightarrow> string \<times> StorageEngine" where
  "StorageEngine_get h s key now1 now2 =
     (case ht_get h (store s) key of
        None \<Rightarrow> ([], s)
      | Some found \<Rightarrow>
          (let entry = found\<lparr>last_accessed := now1\<rparr>;
               st = ht_insert h (store s) key entry
           in if ttl entry \<noteq> seconds_max \<and> now2 - last_accessed entry > to_nanoseconds (ttl entry)
              then ([], s\<lparr>store := snd (ht_remove h st key)\<rparr>)
              else (val entry, s\<lparr>store := st, mem_manager := update_lru (mem_manager s) key\<rparr>)))"

definition StorageEngine_del ::
  "(string \<Rightarrow> nat) \<Rightarrow> StorageEngine \<Rightarrow> string \<Rightarrow> bool \<times> StorageEngine" where
  "StorageEngine_del h s key =
     (case ht_get h (store s) key of
        None \<Rightarrow> (False, s)
      | Some entry \<Rightarrow>
          (True, s\<lparr>current_memory := current_memory s - entry_bytes key entry,
                   store := snd (ht_remove h (store s) key),
                   mem_manager := evict_lru_key (mem_manager s) key\<rparr>))"

text \<open>
  \<^verbatim>\<open>evict_expired\<close>: the scan collects the expired keys bucket by bucket, chain by chain;
  the batch loop then removes each from the table and from the LRU queue.
\<close>

definition keys_to_remove :: "StorageEngine \<Rightarrow> int \<Rightarrow> string list" where
  "keys_to_remove s now = map fst (filter (\<lambda>(k, e). expired now e) (concat (table (store s))))"

fun remove_batch :: "(string \<Rightarrow> nat) \<Rightarrow> StorageEngine \<Rightarrow> string list \<Rightarrow> StorageEngine" where
  "remove_batch h s [] = s"
| "remove_batch h s (key # keys) =
     remove_batch h
       (s\<lparr>store := snd (ht_remove h (store s) key),
          mem_manager := evict_lru_key (mem_manager s) key\<rparr>) keys"

definition evict_expired :: "(string \<Rightarrow> nat) \<Rightarrow> StorageEngine \<Rightarrow> int \<Rightarrow> StorageEngine" where
  "evict_expired h s now = remove_batch h s (keys_to_remove s now)"

section \<open>Standard library conversions\<close>

text \<open>
  \<^verbatim>\<open>std::to_string\<close> on an integer writes its decimal digits, with a leading minus sign for
  a negative one. \<^verbatim>\<open>std::stoi\<close> and \<^verbatim>\<open>std::stoll\<close> convert as \<^verbatim>\<open>strtol\<close> does in base 10:
  leading white space is skipped, one sign is read, then the longest run of digits; what
  follows the digits is ignored. They throw \<^verbatim>\<open>std::invalid_argument\<close> when there is no
  digit and \<^verbatim>\<open>std::out_of_range\<close> when the number does not fit the result type. Every
  caller in this program catches both as \<^verbatim>\<open>std::exception\<close>, so both are \<open>None\<close> here.
\<close>

definition CRLF :: string where
  "CRLF = [CHR 0x0D, CHR 0x0A]"

definition digit_char :: "nat \<Rightarrow> char" where
  "digit_char d = char_of (48 + d)"

function digits_of :: "nat \<Rightarrow> string" where
  "digits_of n = (if n < 10 then [digit_char n] else digits_of (n div 10) @ [digit_char (n mod 10)])"
  by pat_completeness auto
termination
  by (relation "measure (\<lambda>n. n)") auto

declare digits_of.simps [simp del]

definition to_string :: "int \<Rightarrow> string" where
  "to_string i = (if i < 0 then CHR ''-'' # digits_of (nat (- i)) else digits_of (nat i))"

definition isspace :: "char \<Rightarrow> bool" where
  "isspace c \<longleftrightarrow> c = CHR '' '' \<or> (9 \<le> (of_char c :: nat) \<and> (of_char c :: nat) \<le> 13)"

definition isdigit :: "char \<Rightarrow> bool" where
  "isdigit c \<longleftrightarrow> 48 \<le> (of_char c :: nat) \<and> (of_char c :: nat) \<le> 57"

fun digits_value :: "nat \<Rightarrow> string \<Rightarrow> nat" where
  "digits_value acc [] = acc"
| "digits_value acc (c # cs) = digits_value (10 * acc + (of_char c - 48)) cs"

definition strtol :: "string \<Rightarrow> int option" where
  "strtol str =
     (let s1 = dropWhile isspace str;
          negative = (s1 \<noteq> [] \<and> hd s1 = CHR ''-'');
          s2 = (if s1 \<noteq> [] \<and> (hd s1 = CHR ''-'' \<or> hd s1 = CHR ''+'') then tl s1 else s1);
          ds = takeWhile isdigit s2
      in if ds = [] then None
         else Some (if negative then - int (digits_value 0 ds) else int (digits_value 0 ds)))"

definition stoi :: "string \<Rightarrow> int option" where
  "stoi str =
     (case strtol str of
        None \<Rightarrow> None
      | Some n \<Rightarrow> if n < - 2147483648 \<or> 2147483647 < n then None else Some n)"

definition stoll :: "string \<Rightarrow> int option" where
  "stoll str =
     (case strtol str of
        None \<Rightarrow> None
      | Some n \<Rightarrow> if n < - 9223372036854775808 \<or> 9223372036854775807 < n then None else Some n)"

section \<open>Command handlers (server.cpp)\<close>

text \<open>
  The three handlers \<^verbatim>\<open>Server::init\<close> registers, and \<^verbatim>\<open>Server::execute_command\<close>. A handler
  returns its RESP reply and the storage engine after the call. The clock readings the
  engine takes are parameters.
\<close>

definition quote :: string where
  "quote = [CHR 0x27]"

definition handler_SET ::
  "(string \<Rightarrow> nat) \<Rightarrow> StorageEngine \<Rightarrow> string list \<Rightarrow> int \<Rightarrow> string \<times> StorageEngine" where
  "handler_SET h s args now =
     (if length args < 2
      then (''-ERR wrong number of arguments for '' @ quote @ ''set'' @ quote @ '' command'' @ CRLF, s)
      else if 4 \<le> length args \<and> args ! 2 = ''EX''
      then (case stoi (args ! 3) of
              None \<Rightarrow> (''-ERR invalid expire time in '' @ quote @ ''set'' @ quote @ '' command'' @ CRLF, s)
            | Some secs \<Rightarrow> (''+OK'' @ CRLF, StorageEngine_set h s (args ! 0) (args ! 1) secs now))
      else (''+OK'' @ CRLF, StorageEngine_set h s (args ! 0) (args ! 1) seconds_max now))"

definition handler_GET ::
  "(string \<Rightarrow> nat) \<Rightarrow> StorageEngine \<Rightarrow> string list \<Rightarrow> int \<Rightarrow> int \<Rightarrow> string \<times> StorageEngine" where
  "handler_GET h s args now1 now2 =
     (if length args \<noteq> 1
      then (''-ERR wrong number of arguments for '' @ quote @ ''get'' @ quote @ '' command'' @ CRLF, s)
      else (case StorageEngine_get h s (args ! 0) now1 now2 of (v, s') \<Rightarrow>
              if v = [] then (''$-1'' @ CRLF, s')
              else (''$'' @ to_string (int (length v)) @ CRLF @ v @ CRLF, s')))"

definition handler_DEL ::
  "(string \<Rightarrow> nat) \<Rightarrow> StorageEngine \<Rightarrow> string list \<Rightarrow> string \<times> StorageEngine" where
  "handler_DEL h s args =
     (if length args \<noteq> 1
      then (''-ERR wrong number of arguments for '' @ quote @ ''del'' @ quote @ '' command'' @ CRLF, s)
      else (case StorageEngine_del h s (args ! 0) of (success, s') \<Rightarrow>
              ('':'' @ to_string (if success then 1 else 0) @ CRLF, s')))"

definition execute_command ::
  "(string \<Rightarrow> nat) \<Rightarrow> StorageEngine \<Rightarrow> string \<Rightarrow> string list \<Rightarrow> int \<Rightarrow> int \<Rightarrow> string \<times> StorageEngine" where
  "execute_command h s command args now1 now2 =
     (if command = ''SET'' then handler_SET h s args now1
      else if command = ''GET'' then handler_GET h s args now1 now2
      else if command = ''DEL'' then handler_DEL h s args
      else (''-ERR unknown command '' @ quote @ command @ quote @ CRLF, s))"

section \<open>RESP-2 values and the encoder (resp.h, resp.cpp)\<close>

text \<open>
  A \<^verbatim>\<open>RespValue\<close> holds a type tag, a null flag and the payload of its type. Its
  constructor is private: the values that exist are those of the seven factory functions
  \<^verbatim>\<open>createSimpleString\<close>, \<^verbatim>\<open>createError\<close>, \<^verbatim>\<open>createInteger\<close>, \<^verbatim>\<open>createBulkString\<close>,
  \<^verbatim>\<open>createNullBulkString\<close>, \<^verbatim>\<open>createArray\<close> and \<^verbatim>\<open>createNullArray\<close>, one constructor each
  here. The integer payload is an \<^verbatim>\<open>int64_t\<close>.
\<close>

datatype RespValue =
    SimpleString string
  | Error string
  | Integer "64 word"
  | BulkString string
  | NullBulkString
  | Array "RespValue list"
  | NullArray

fun encode :: "RespValue \<Rightarrow> string" where
  "encode (SimpleString v) = ''+'' @ v @ CRLF"
| "encode (Error v) = ''-'' @ v @ CRLF"
| "encode (Integer v) = '':'' @ to_string (sint v) @ CRLF"
| "encode (BulkString v) = ''$'' @ to_string (int (length v)) @ CRLF @ v @ CRLF"
| "encode NullBulkString = ''$-1'' @ CRLF"
| "encode (Array values) = ''*'' @ to_string (int (length values)) @ CRLF @ concat (map encode values)"
| "encode NullArray = ''*-1'' @ CRLF"

section \<open>The RESP-2 parser (resp.cpp)\<close>

text \<open>
  \<^verbatim>\<open>parse\<close> returns \<^verbatim>\<open>std::nullopt\<close> when it needs more bytes, the value and the number
  of bytes consumed when the input starts with a complete value, and throws
  \<^verbatim>\<open>std::runtime_error\<close> on invalid input: \<open>Inr None\<close>, \<open>Inr (Some (value, consumed))\<close> and
  \<open>Inl message\<close>.
\<close>

type_synonym parse_result = "string + (RespValue \<times> nat) option"

text \<open>\<^verbatim>\<open>std::string::substr(pos, n)\<close>, for \<open>pos\<close> within the string as at every call here.\<close>

definition substr :: "string \<Rightarrow> nat \<Rightarrow> nat \<Rightarrow> string" where
  "substr data pos n = take n (drop pos data)"

function findCRLF_loop :: "string \<Rightarrow> nat \<Rightarrow> nat option" where
  "findCRLF_loop data i =
     (if i + 1 < length data
      then (if data ! i = CHR 0x0D \<and> data ! (i + 1) = CHR 0x0A then Some i
            else findCRLF_loop data (i + 1))
      else None)"
  by pat_completeness auto
termination
  by (relation "measure (\<lambda>(data, i). length data - i)") auto

declare findCRLF_loop.simps [simp del]

definition findCRLF :: "string \<Rightarrow> nat \<Rightarrow> nat option" where
  "findCRLF data start = (if length data \<le> start then None else findCRLF_loop data start)"

definition parseSimpleString :: "string \<Rightarrow> parse_result" where
  "parseSimpleString data =
     (case findCRLF data 1 of
        None \<Rightarrow> Inr None
      | Some crlf_pos \<Rightarrow> Inr (Some (SimpleString (substr data 1 (crlf_pos - 1)), crlf_pos + 2)))"

definition parseError :: "string \<Rightarrow> parse_result" where
  "parseError data =
     (case findCRLF data 1 of
        None \<Rightarrow> Inr None
      | Some crlf_pos \<Rightarrow> Inr (Some (Error (substr data 1 (crlf_pos - 1)), crlf_pos + 2)))"

definition parseInteger :: "string \<Rightarrow> parse_result" where
  "parseInteger data =
     (case findCRLF data 1 of
        None \<Rightarrow> Inr None
      | Some crlf_pos \<Rightarrow>
          (case stoll (substr data 1 (crlf_pos - 1)) of
             None \<Rightarrow> Inl ''Invalid integer format in RESP data''
           | Some v \<Rightarrow> Inr (Some (Integer (word_of_int v), crlf_pos + 2))))"

definition parseBulkString :: "string \<Rightarrow> parse_result" where
  "parseBulkString data =
     (case findCRLF data 1 of
        None \<Rightarrow> Inr None
      | Some crlf_pos \<Rightarrow>
          (case stoi (substr data 1 (crlf_pos - 1)) of
             None \<Rightarrow> Inl ''Invalid bulk string format in RESP data''
           | Some len \<Rightarrow>
               if len = - 1 then Inr (Some (NullBulkString, crlf_pos + 2))
               else if len < 0 then Inl ''Invalid bulk string format in RESP data''
               else if length data < crlf_pos + 2 + nat len + 2 then Inr None
               else Inr (Some (BulkString (substr data (crlf_pos + 2) (nat len)),
                               crlf_pos + 2 + nat len + 2))))"

lemma findCRLF_loop_bound: "findCRLF_loop data i = Some p \<Longrightarrow> i \<le> p \<and> p + 1 < length data"
proof (induction data i rule: findCRLF_loop.induct)
  case (1 data i)
  then show ?case
    by (subst (asm) (2) findCRLF_loop.simps) (auto split: if_splits)
qed

lemma findCRLF_bound: "findCRLF data start = Some p \<Longrightarrow> start \<le> p \<and> p + 1 < length data"
  by (auto simp: findCRLF_def dest: findCRLF_loop_bound split: if_splits)

text \<open>
  \<^verbatim>\<open>parse\<close>, \<^verbatim>\<open>parseArray\<close> and the element loop of \<^verbatim>\<open>parseArray\<close> call each other. The loop
  carries the number of elements still to read, the position and the elements read so
  far. An exception that leaves the \<^verbatim>\<open>try\<close> block of \<^verbatim>\<open>parseArray\<close>, its own or one of an
  element, is caught and thrown again with the message of \<^verbatim>\<open>parseArray\<close>.
\<close>

function parse :: "string \<Rightarrow> parse_result"
  and parseArray :: "string \<Rightarrow> parse_result"
  and parseArray_loop :: "string \<Rightarrow> nat \<Rightarrow> nat \<Rightarrow> RespValue list \<Rightarrow> parse_result"
where
  "parse data =
     (if data = [] then Inr None
      else if hd data = CHR ''+'' then parseSimpleString data
      else if hd data = CHR ''-'' then parseError data
      else if hd data = CHR '':'' then parseInteger data
      else if hd data = CHR ''$'' then parseBulkString data
      else if hd data = CHR ''*'' then parseArray data
      else Inl ''Invalid RESP data type'')"
| "parseArray data =
     (case findCRLF data 1 of
        None \<Rightarrow> Inr None
      | Some crlf_pos \<Rightarrow>
          (case stoi (substr data 1 (crlf_pos - 1)) of
             None \<Rightarrow> Inl ''Invalid array format in RESP data''
           | Some len \<Rightarrow>
               if len = - 1 then Inr (Some (NullArray, crlf_pos + 2))
               else if len < 0 then Inl ''Invalid array format in RESP data''
               else (case parseArray_loop data (nat len) (crlf_pos + 2) [] of
                       Inl e \<Rightarrow> Inl ''Invalid array format in RESP data''
                     | Inr r \<Rightarrow> Inr r)))"
| "parseArray_loop data n current_pos elements =
     (if n = 0 then Inr (Some (Array elements, current_pos))
      else if length data \<le> current_pos then Inr None
      else (case parse (drop current_pos data) of
              Inl e \<Rightarrow> Inl e
            | Inr None \<Rightarrow> Inr None
            | Inr (Some (element, element_bytes)) \<Rightarrow>
                parseArray_loop data (n - 1) (current_pos + element_bytes) (elements @ [element])))"
  by pat_completeness auto
termination
  apply (relation "inv_image (less_than <*lex*> less_than <*lex*> less_than)
    (\<lambda>x. case x of
       Inl data \<Rightarrow> (length data, 3::nat, 0::nat)
     | Inr (Inl data) \<Rightarrow> (length data, 2, 0)
     | Inr (Inr (data, n, current_pos, elements)) \<Rightarrow> (length data - current_pos, 4, n))")
      apply simp_all
   apply (auto dest: findCRLF_bound)
  done

declare parse.simps [simp del] parseArray.simps [simp del] parseArray_loop.simps [simp del]

section \<open>Command framing of a connection (connection.cpp)\<close>

text \<open>
  \<^verbatim>\<open>Connection::process_commands\<close> frames commands out of \<^verbatim>\<open>input_buffer\<close> by hand (it
  does not call \<^verbatim>\<open>RespProtocol::parse\<close>), runs each through \<^verbatim>\<open>Server::execute_command\<close>
  and queues the reply. The server is a parameter: \<open>exec\<close> takes the server's state, the
  upper-cased command and its arguments, and returns the reply and the new state.
  \<^verbatim>\<open>Server::handle_event\<close> closes the connection exactly when \<^verbatim>\<open>handle_read\<close>, which
  returns the result of \<^verbatim>\<open>process_commands\<close>, returns \<^verbatim>\<open>false\<close>.
\<close>

text \<open>
  The index at which the first CRLF of a text starts: what \<^verbatim>\<open>std::string::find("\r\n")\<close> returns,
  and what \<open>findCRLF\<close> computes (lemma \<open>findCRLF_eq\<close>).
\<close>

fun find_crlf :: "string \<Rightarrow> nat option" where
  "find_crlf (a # b # cs) =
     (if a = CHR 0x0D \<and> b = CHR 0x0A then Some 0 else map_option Suc (find_crlf (b # cs)))"
| "find_crlf [a] = None"
| "find_crlf [] = None"

datatype State = CONNECTED | CLOSING | CLOSED

record Connection =
  conn_state :: State
  input_buffer :: string
  output_queue :: "string list"

definition add_response :: "Connection \<Rightarrow> string \<Rightarrow> Connection" where
  "add_response c response =
     (if conn_state c = CONNECTED then c\<lparr>output_queue := output_queue c @ [response]\<rparr> else c)"

text \<open>\<^verbatim>\<open>input_buffer.find("\r\n", pos)\<close>: the first index from \<open>pos\<close> on where a CRLF starts.\<close>

definition find_CRLF :: "string \<Rightarrow> nat \<Rightarrow> nat option" where
  "find_CRLF buf pos = map_option (\<lambda>j. pos + j) (find_crlf (drop pos buf))"

definition toupper :: "char \<Rightarrow> char" where
  "toupper c = (if 97 \<le> (of_char c :: nat) \<and> (of_char c :: nat) \<le> 122
                then char_of ((of_char c :: nat) - 32) else c)"

text \<open>
  What framing one command gives: a protocol error (\<^verbatim>\<open>return false\<close>), an incomplete
  command (\<^verbatim>\<open>break\<close>), or the arguments and the position behind the command.
\<close>

datatype frame = Protocol_error | Incomplete | Complete "string list" nat

text \<open>The loop over the \<^verbatim>\<open>array_size\<close> bulk strings of a command; \<open>n\<close> are still to read.\<close>

fun parse_bulk_strings :: "string \<Rightarrow> nat \<Rightarrow> nat \<Rightarrow> string list \<Rightarrow> frame" where
  "parse_bulk_strings buf 0 current_pos args = Complete args current_pos"
| "parse_bulk_strings buf (Suc n) current_pos args =
     (if length buf \<le> current_pos \<or> buf ! current_pos \<noteq> CHR ''$'' then Incomplete
      else (case find_CRLF buf current_pos of
              None \<Rightarrow> Incomplete
            | Some len_end \<Rightarrow>
                (case stoi (substr buf (current_pos + 1) (len_end - current_pos - 1)) of
                   None \<Rightarrow> Protocol_error
                 | Some bulk_len \<Rightarrow>
                     if bulk_len < 0 then parse_bulk_strings buf n (len_end + 2) (args @ [[]])
                     else (let data_start = len_end + 2;
                               data_end = data_start + nat bulk_len
                           in if length buf < data_end + 2 then Incomplete
                              else parse_bulk_strings buf n (data_end + 2)
                                     (args @ [substr buf data_start (nat bulk_len)])))))"

text \<open>Framing the command that starts with the \<^verbatim>\<open>*\<close> at \<open>pos\<close>.\<close>

definition frame_command :: "string \<Rightarrow> nat \<Rightarrow> frame" where
  "frame_command buf pos =
     (case find_CRLF buf pos of
        None \<Rightarrow> Incomplete
      | Some end_pos \<Rightarrow>
          (case stoi (substr buf (pos + 1) (end_pos - pos - 1)) of
             None \<Rightarrow> Protocol_error
           | Some array_size \<Rightarrow>
               if array_size \<le> 0 then Protocol_error
               else parse_bulk_strings buf (nat array_size) (end_pos + 2) []))"

lemma find_CRLF_bound: "find_CRLF buf pos = Some e \<Longrightarrow> pos \<le> e"
  by (auto simp: find_CRLF_def)

lemma parse_bulk_strings_pos:
  "parse_bulk_strings buf n current_pos args = Complete args' p \<Longrightarrow> current_pos \<le> p"
proof (induction n arbitrary: current_pos args)
  case 0
  then show ?case by simp
next
  case (Suc n)
  then show ?case
    by (fastforce simp: Let_def dest: find_CRLF_bound split: if_splits option.splits)
qed

lemma frame_command_pos: "frame_command buf pos = Complete args p \<Longrightarrow> 2 \<le> p"
  by (auto simp: frame_command_def dest!: parse_bulk_strings_pos split: option.splits if_splits)

function process_loop ::
  "('s \<Rightarrow> string \<Rightarrow> string list \<Rightarrow> string \<times> 's) \<Rightarrow> Connection \<Rightarrow> 's \<Rightarrow> nat
     \<Rightarrow> bool \<times> Connection \<times> 's" where
  "process_loop exec c srv pos =
     (if pos < length (input_buffer c) then
        (if input_buffer c ! pos = CHR ''*'' then
           (case frame_command (input_buffer c) pos of
              Protocol_error \<Rightarrow> (False, c, srv)
            | Incomplete \<Rightarrow> (True, c, srv)
            | Complete args current_pos \<Rightarrow>
                (if args \<noteq> [] then
                   (case exec srv (map toupper (args ! 0)) (tl args) of (response, srv') \<Rightarrow>
                      process_loop exec
                        ((add_response c response)
                           \<lparr>input_buffer := drop current_pos (input_buffer c)\<rparr>) srv' 0)
                 else process_loop exec
                        (c\<lparr>input_buffer := drop current_pos (input_buffer c)\<rparr>) srv 0))
         else process_loop exec c srv (pos + 1))
      else (True, c, srv))"
  by pat_completeness auto
termination
  apply (relation "inv_image (less_than <*lex*> less_than)
      (\<lambda>(exec, c, srv, pos). (length (input_buffer c), length (input_buffer c) - pos))")
     apply (auto simp: add_response_def dest!: frame_command_pos)
  done

declare process_loop.simps [simp del]

definition process_commands ::
  "('s \<Rightarrow> string \<Rightarrow> string list \<Rightarrow> string \<times> 's) \<Rightarrow> Connection \<Rightarrow> 's \<Rightarrow> bool \<times> Connection \<times> 's" where
  "process_commands exec c srv = process_loop exec c srv 0"

text \<open>The server of this program, with the clock standing at \<open>now\<close>.\<close>

definition server_exec :: "int \<Rightarrow> StorageEngine \<Rightarrow> string \<Rightarrow> string list \<Rightarrow> string \<times> StorageEngine" where
  "server_exec now s command args = execute_command length s command args now now"

text \<open>A connected client with \<open>buf\<close> received and nothing queued for sending.\<close>

definition idle_connection :: "string \<Rightarrow> Connection" where
  "idle_connection buf = \<lparr>conn_state = CONNECTED, input_buffer = buf, output_queue = []\<rparr>"

chapter \<open>Properties\<close>

section \<open>The class invariant of the hash table\<close>

text \<open>
  Every node sits in the bucket its key hashes to, no key occurs twice, the bucket vector
  has \<^verbatim>\<open>capacity\<close> elements and \<^verbatim>\<open>size\<close> counts the nodes. The constructor establishes
  this and \<^verbatim>\<open>insert\<close>, \<^verbatim>\<open>remove\<close> and \<^verbatim>\<open>resize\<close> keep it (lemmas \<open>ht_insert_wf\<close>,
  \<open>ht_remove_wf\<close>, \<open>resize_wf\<close>).
\<close>

definition buckets_ok :: "('k \<Rightarrow> nat) \<Rightarrow> nat \<Rightarrow> ('k, 'v) chain list \<Rightarrow> bool" where
  "buckets_ok h n tb \<longleftrightarrow> (\<forall>i < length tb. \<forall>kv \<in> set (tb ! i). h (fst kv) mod n = i)"

definition ht_wf :: "('k \<Rightarrow> nat) \<Rightarrow> ('k, 'v) HashTable \<Rightarrow> bool" where
  "ht_wf h t \<longleftrightarrow>
     0 < capacity t \<and> length (table t) = capacity t \<and>
     buckets_ok h (capacity t) (table t) \<and>
     distinct (map fst (concat (table t))) \<and>
     size_ht t = length (concat (table t))"

lemma chain_get_map_of: "chain_get ch k = map_of ch k"
  by (induction ch) auto

lemma concat_update_mset:
  "i < length xss \<Longrightarrow> mset (concat (xss[i := ys])) + mset (xss ! i) = mset (concat xss) + mset ys"
proof (induction xss arbitrary: i)
  case Nil
  then show ?case by simp
next
  case (Cons a xss)
  then show ?case by (cases i) (auto simp: ac_simps)
qed

lemma concat_update_cons_mset:
  "i < length xss \<Longrightarrow> mset (concat (xss[i := x # xss ! i])) = add_mset x (mset (concat xss))"
  using concat_update_mset[of i xss "x # xss ! i"] by simp

lemma buckets_ok_update:
  "buckets_ok h n tb \<Longrightarrow> i < length tb \<Longrightarrow> \<forall>kv \<in> set ys. h (fst kv) mod n = i \<Longrightarrow>
   buckets_ok h n (tb[i := ys])"
  by (auto simp: buckets_ok_def nth_list_update)

lemma rehash_chain_length [simp]:
  "length (rehash_chain h n ch nt) = length nt"
  by (induction ch arbitrary: nt) (auto simp: Let_def)

lemma rehash_chain_mset:
  "0 < n \<Longrightarrow> length nt = n \<Longrightarrow>
   mset (concat (rehash_chain h n ch nt)) = mset ch + mset (concat nt)"
  by (induction ch arbitrary: nt) (auto simp: Let_def concat_update_cons_mset)

lemma rehash_chain_buckets_ok:
  "0 < n \<Longrightarrow> length nt = n \<Longrightarrow> buckets_ok h n nt \<Longrightarrow> buckets_ok h n (rehash_chain h n ch nt)"
proof (induction ch arbitrary: nt)
  case Nil
  then show ?case by simp
next
  case (Cons a ch)
  obtain k v where a: "a = (k, v)" by (cases a)
  have "buckets_ok h n (nt[h k mod n := (k, v) # nt ! (h k mod n)])"
    using Cons.prems by (intro buckets_ok_update) (auto simp: buckets_ok_def)
  then show ?case using Cons a by (simp add: Let_def)
qed

lemma rehash_fold_length [simp]:
  "length (foldl (\<lambda>new_table ch. rehash_chain h n ch new_table) nt chs) = length nt"
  by (induction chs arbitrary: nt) auto

lemma rehash_fold_mset:
  "0 < n \<Longrightarrow> length nt = n \<Longrightarrow>
   mset (concat (foldl (\<lambda>new_table ch. rehash_chain h n ch new_table) nt chs))
     = mset (concat chs) + mset (concat nt)"
  by (induction chs arbitrary: nt) (auto simp: rehash_chain_mset)

lemma rehash_fold_buckets_ok:
  "0 < n \<Longrightarrow> length nt = n \<Longrightarrow> buckets_ok h n nt \<Longrightarrow>
   buckets_ok h n (foldl (\<lambda>new_table ch. rehash_chain h n ch new_table) nt chs)"
  by (induction chs arbitrary: nt) (auto simp: rehash_chain_buckets_ok)

lemma resize_entries:
  "0 < n \<Longrightarrow> mset (concat (table (resize h t n))) = mset (concat (table t))"
  by (simp add: resize_def rehash_fold_mset)

lemma resize_wf:
  assumes "ht_wf h t" "0 < n"
  shows "ht_wf h (resize h t n)"
proof -
  have m: "mset (concat (table (resize h t n))) = mset (concat (table t))"
    using assms(2) by (rule resize_entries)
  have "mset (map fst (concat (table (resize h t n)))) = mset (map fst (concat (table t)))"
    using m by (metis mset_map)
  then have d: "distinct (map fst (concat (table (resize h t n))))"
    using assms(1) by (metis ht_wf_def mset_eq_imp_distinct_iff)
  have l: "length (concat (table (resize h t n))) = length (concat (table t))"
    using m by (rule mset_eq_length)
  have "buckets_ok h n (replicate n ([] :: ('a \<times> 'b) list))"
    by (simp add: buckets_ok_def)
  then have b: "buckets_ok h n (table (resize h t n))"
    using assms(2) by (simp add: resize_def rehash_fold_buckets_ok)
  show ?thesis
    using assms d l b by (simp add: ht_wf_def) (simp add: resize_def)
qed

lemma ht_get_iff:
  assumes "ht_wf h t"
  shows "ht_get h t k = Some v \<longleftrightarrow> (k, v) \<in> set (concat (table t))"
proof
  assume "ht_get h t k = Some v"
  then have "(k, v) \<in> set (table t ! hash h t k)"
    by (simp add: ht_get_def chain_get_map_of map_of_SomeD)
  moreover have "hash h t k < length (table t)"
    using assms by (simp add: ht_wf_def hash_def)
  ultimately show "(k, v) \<in> set (concat (table t))"
    using nth_mem by fastforce
next
  assume "(k, v) \<in> set (concat (table t))"
  then obtain ch where ch: "ch \<in> set (table t)" "(k, v) \<in> set ch" by auto
  then obtain i where i: "i < length (table t)" "table t ! i = ch"
    by (auto simp: in_set_conv_nth)
  have "h k mod capacity t = i"
    using assms i ch by (fastforce simp: ht_wf_def buckets_ok_def)
  moreover have "distinct (map fst ch)"
    using assms ch(1) by (auto simp: ht_wf_def map_concat distinct_concat_iff)
  ultimately show "ht_get h t k = Some v"
    using ch i by (simp add: ht_get_def hash_def chain_get_map_of)
qed

lemma resize_get:
  "ht_wf h t \<Longrightarrow> 0 < n \<Longrightarrow> ht_get h (resize h t n) k = ht_get h t k"
proof -
  assume a: "ht_wf h t" "0 < n"
  have "\<And>v. ht_get h (resize h t n) k = Some v \<longleftrightarrow> ht_get h t k = Some v"
    using a by (metis ht_get_iff resize_wf resize_entries set_mset_mset)
  then show ?thesis by (metis not_Some_eq)
qed

lemma concat_nth_split:
  "i < length xss \<Longrightarrow> concat xss = concat (take i xss) @ xss ! i @ concat (drop (Suc i) xss)"
  by (metis append_Cons append_Nil concat.simps(2) concat_append id_take_nth_drop)

lemma concat_update_split:
  "i < length xss \<Longrightarrow> concat (xss[i := ys]) = concat (take i xss) @ ys @ concat (drop (Suc i) xss)"
  by (simp add: upd_conv_take_nth_drop)

lemma chain_update_None: "chain_update ch k v = None \<longleftrightarrow> k \<notin> fst ` set ch"
  by (induction ch) (auto split: if_splits)

lemma chain_update_Some:
  "chain_update ch k v = Some ch' \<Longrightarrow>
   \<exists>pre post w. ch = pre @ (k, w) # post \<and> ch' = pre @ (k, v) # post \<and> k \<notin> fst ` set pre"
proof (induction ch arbitrary: ch')
  case Nil
  then show ?case by simp
next
  case (Cons a ch)
  obtain k0 w0 where a: "a = (k0, w0)" by (cases a)
  show ?case
  proof (cases "k0 = k")
    case True
    then have "a # ch = [] @ (k, w0) # ch \<and> ch' = [] @ (k, v) # ch \<and> k \<notin> fst ` set []"
      using Cons.prems a by simp
    then show ?thesis by blast
  next
    case False
    then obtain r where r: "chain_update ch k v = Some r" "ch' = (k0, w0) # r"
      using Cons.prems a by auto
    from Cons.IH[OF r(1)] obtain pre post w where
      "ch = pre @ (k, w) # post" "r = pre @ (k, v) # post" "k \<notin> fst ` set pre" by blast
    then have "a # ch = ((k0, w0) # pre) @ (k, w) # post \<and> ch' = ((k0, w0) # pre) @ (k, v) # post
        \<and> k \<notin> fst ` set ((k0, w0) # pre)"
      using a r(2) False by simp
    then show ?thesis by blast
  qed
qed

lemma chain_remove_None: "chain_remove ch k = None \<longleftrightarrow> k \<notin> fst ` set ch"
  by (induction ch) (auto split: if_splits)

lemma chain_remove_Some:
  "chain_remove ch k = Some ch' \<Longrightarrow>
   \<exists>pre post w. ch = pre @ (k, w) # post \<and> ch' = pre @ post \<and> k \<notin> fst ` set pre"
proof (induction ch arbitrary: ch')
  case Nil
  then show ?case by simp
next
  case (Cons a ch)
  obtain k0 w0 where a: "a = (k0, w0)" by (cases a)
  show ?case
  proof (cases "k0 = k")
    case True
    then have "a # ch = [] @ (k, w0) # ch \<and> ch' = [] @ ch \<and> k \<notin> fst ` set []"
      using Cons.prems a by simp
    then show ?thesis by blast
  next
    case False
    then obtain r where r: "chain_remove ch k = Some r" "ch' = (k0, w0) # r"
      using Cons.prems a by auto
    from Cons.IH[OF r(1)] obtain pre post w where
      "ch = pre @ (k, w) # post" "r = pre @ post" "k \<notin> fst ` set pre" by blast
    then have "a # ch = ((k0, w0) # pre) @ (k, w) # post \<and> ch' = ((k0, w0) # pre) @ post
        \<and> k \<notin> fst ` set ((k0, w0) # pre)"
      using a r(2) False by simp
    then show ?thesis by blast
  qed
qed

lemma chain_get_None: "chain_get ch k = None \<longleftrightarrow> k \<notin> fst ` set ch"
  by (simp add: chain_get_map_of map_of_eq_None_iff)

lemma hash_less: "ht_wf h t \<Longrightarrow> hash h t k < length (table t)"
  by (simp add: ht_wf_def hash_def)

text \<open>Replacing the chain of one bucket.\<close>

lemma update_bucket_wf:
  assumes wf: "ht_wf h t" and i: "i < capacity t"
    and sub: "\<forall>kv \<in> set ch'. h (fst kv) mod capacity t = i"
    and dist: "distinct (map fst (concat (take i (table t)) @ ch' @ concat (drop (Suc i) (table t))))"
    and n: "n = length (concat (take i (table t)) @ ch' @ concat (drop (Suc i) (table t)))"
  shows "ht_wf h (t\<lparr>table := (table t)[i := ch'], size_ht := n\<rparr>)"
  using assms
  by (simp add: ht_wf_def buckets_ok_update concat_update_split)

lemma key_only_in_own_bucket:
  assumes wf: "ht_wf h t" and i: "i = hash h t k"
  shows "k \<notin> fst ` set (concat (take i (table t)))" "k \<notin> fst ` set (concat (drop (Suc i) (table t)))"
proof -
  have *: "\<And>j kv. j < length (table t) \<Longrightarrow> kv \<in> set (table t ! j) \<Longrightarrow> fst kv = k \<Longrightarrow> j = i"
    using wf i by (auto simp: ht_wf_def buckets_ok_def hash_def)
  show "k \<notin> fst ` set (concat (take i (table t)))"
  proof
    assume "k \<in> fst ` set (concat (take i (table t)))"
    then obtain kv ch where "kv \<in> set ch" "ch \<in> set (take i (table t))" "fst kv = k" by auto
    then obtain j where "j < i" "j < length (table t)" "table t ! j = ch"
      by (auto simp: in_set_conv_nth)
    then show False using * \<open>kv \<in> set ch\<close> \<open>fst kv = k\<close> by blast
  qed
  show "k \<notin> fst ` set (concat (drop (Suc i) (table t)))"
  proof
    assume "k \<in> fst ` set (concat (drop (Suc i) (table t)))"
    then obtain kv ch where "kv \<in> set ch" "ch \<in> set (drop (Suc i) (table t))" "fst kv = k" by auto
    then obtain j where "j < length (drop (Suc i) (table t))" "drop (Suc i) (table t) ! j = ch"
      by (auto simp: in_set_conv_nth)
    then have "Suc i + j < length (table t)" "table t ! (Suc i + j) = ch"
      by auto
    then show False using *[of "Suc i + j" kv] \<open>kv \<in> set ch\<close> \<open>fst kv = k\<close> by simp
  qed
qed

text \<open>
  \<^verbatim>\<open>insert\<close> after its resize test and \<^verbatim>\<open>remove\<close> before its resize test, named for the
  proofs.
\<close>

definition insert_node :: "('k \<Rightarrow> nat) \<Rightarrow> ('k, 'v) HashTable \<Rightarrow> 'k \<Rightarrow> 'v \<Rightarrow> ('k, 'v) HashTable" where
  "insert_node h t1 key v =
     (let index = hash h t1 key
      in case chain_update (table t1 ! index) key v of
           Some ch \<Rightarrow> t1\<lparr>table := (table t1)[index := ch]\<rparr>
         | None \<Rightarrow> t1\<lparr>table := (table t1)[index := (key, v) # (table t1 ! index)],
                      size_ht := size_ht t1 + 1\<rparr>)"

definition unlink_node :: "('k \<Rightarrow> nat) \<Rightarrow> ('k, 'v) HashTable \<Rightarrow> 'k \<Rightarrow> ('k, 'v) HashTable option" where
  "unlink_node h t key =
     (let index = hash h t key
      in case chain_remove (table t ! index) key of
           None \<Rightarrow> None
         | Some ch \<Rightarrow> Some (t\<lparr>table := (table t)[index := ch], size_ht := size_ht t - 1\<rparr>))"

lemma ht_insert_alt:
  "ht_insert h t key v =
     insert_node h (if 7 * capacity t \<le> 10 * size_ht t then resize h t (2 * capacity t) else t) key v"
  by (simp add: ht_insert_def insert_node_def Let_def)

lemma ht_remove_alt:
  "ht_remove h t key =
     (case unlink_node h t key of
        None \<Rightarrow> (False, t)
      | Some t1 \<Rightarrow> (True, if 8 < capacity t1 \<and> 5 * size_ht t1 < capacity t1
                          then resize h t1 (capacity t1 div 2) else t1))"
  by (simp add: ht_remove_def unlink_node_def Let_def split: option.splits)

lemma ht_get_None_iff:
  assumes "ht_wf h t"
  shows "ht_get h t k = None \<longleftrightarrow> k \<notin> fst ` set (concat (table t))"
proof -
  have "ht_get h t k = None \<longleftrightarrow> (\<forall>v. (k, v) \<notin> set (concat (table t)))"
    using ht_get_iff[OF assms, of k] by (metis not_Some_eq)
  then show ?thesis by force
qed

lemma ht_get_chain:
  "ht_wf h t \<Longrightarrow> ht_get h t k = None \<longleftrightarrow> k \<notin> fst ` set (table t ! hash h t k)"
  by (simp add: ht_get_def chain_get_None)

lemma insert_node_capacity [simp]: "capacity (insert_node h t k v) = capacity t"
  by (simp add: insert_node_def Let_def split: option.splits)

lemma chain_update_None_get: "chain_update ch k v = None \<longleftrightarrow> chain_get ch k = None"
  by (simp add: chain_update_None chain_get_None)

lemma chain_remove_None_get: "chain_remove ch k = None \<longleftrightarrow> chain_get ch k = None"
  by (simp add: chain_remove_None chain_get_None)

lemma insert_node_size:
  "size_ht (insert_node h t k v) = (if ht_get h t k = None then size_ht t + 1 else size_ht t)"
proof (cases "chain_update (table t ! hash h t k) k v")
  case None
  then show ?thesis
    using chain_update_None_get[of "table t ! hash h t k" k v]
    by (simp add: insert_node_def ht_get_def Let_def)
next
  case (Some ch')
  then show ?thesis
    using chain_update_None_get[of "table t ! hash h t k" k v]
    by (simp add: insert_node_def ht_get_def Let_def)
qed

lemma chain_get_replace:
  "k \<notin> fst ` set pre \<Longrightarrow>
   chain_get (pre @ (k, v) # post) k' = (if k' = k then Some v else chain_get (pre @ (k, w) # post) k')"
  by (induction pre) auto

lemma chain_get_drop:
  "k \<notin> fst ` set pre \<Longrightarrow> k \<notin> fst ` set post \<Longrightarrow>
   chain_get (pre @ post) k' = (if k' = k then None else chain_get (pre @ (k, w) # post) k')"
  by (induction pre) (auto simp: chain_get_None)

lemma insert_node_get:
  assumes "ht_wf h t"
  shows "ht_get h (insert_node h t k v) k' = (if k' = k then Some v else ht_get h t k')"
proof (cases "chain_update (table t ! hash h t k) k v")
  case None
  then show ?thesis
    using hash_less[OF assms, of k] hash_less[OF assms, of k']
    by (auto simp: insert_node_def Let_def ht_get_def hash_def nth_list_update)
next
  case (Some ch')
  from chain_update_Some[OF Some] obtain pre post w where
    s: "table t ! hash h t k = pre @ (k, w) # post" "ch' = pre @ (k, v) # post" "k \<notin> fst ` set pre"
    by blast
  have "chain_get ch' k' = (if k' = k then Some v else chain_get (table t ! hash h t k) k')"
    using s chain_get_replace[of k pre v post k' w] by simp
  then show ?thesis
    using Some hash_less[OF assms, of k] hash_less[OF assms, of k']
    by (auto simp: insert_node_def Let_def ht_get_def hash_def nth_list_update)
qed

lemma insert_node_wf:
  assumes wf: "ht_wf h t"
  shows "ht_wf h (insert_node h t k v)"
proof -
  let ?i = "hash h t k"
  let ?A = "concat (take ?i (table t))" and ?B = "concat (drop (Suc ?i) (table t))"
  have i: "?i < capacity t" using hash_less[OF wf, of k] wf by (simp add: ht_wf_def)
  have il: "?i < length (table t)" using hash_less[OF wf] .
  have bk: "\<forall>kv \<in> set (table t ! ?i). h (fst kv) mod capacity t = ?i"
    using wf il by (simp add: ht_wf_def buckets_ok_def)
  have d: "distinct (map fst (?A @ table t ! ?i @ ?B))"
    using wf concat_nth_split[OF il] by (simp add: ht_wf_def)
  have sz: "size_ht t = length (?A @ table t ! ?i @ ?B)"
    using wf concat_nth_split[OF il] by (simp add: ht_wf_def)
  note out = key_only_in_own_bucket[OF wf refl, of k]
  show ?thesis
  proof (cases "chain_update (table t ! ?i) k v")
    case None
    then have nk: "k \<notin> fst ` set (table t ! ?i)" by (simp add: chain_update_None)
    have "k \<notin> set (map fst (?A @ table t ! ?i @ ?B))"
      using nk out by simp
    then have d': "distinct (map fst (?A @ ((k, v) # table t ! ?i) @ ?B))"
      using d by simp
    have bk': "\<forall>kv \<in> set ((k, v) # table t ! ?i). h (fst kv) mod capacity t = ?i"
      using bk by (simp add: hash_def)
    have sz': "size_ht t + 1 = length (?A @ ((k, v) # table t ! ?i) @ ?B)"
      using sz by simp
    have "ht_wf h (t\<lparr>table := (table t)[?i := (k, v) # table t ! ?i], size_ht := size_ht t + 1\<rparr>)"
      by (rule update_bucket_wf[OF wf i bk' d' sz'])
    then show ?thesis using None by (simp add: insert_node_def Let_def)
  next
    case (Some ch')
    from chain_update_Some[OF Some] obtain pre post w where
      s: "table t ! ?i = pre @ (k, w) # post" "ch' = pre @ (k, v) # post" by blast
    have "map fst (?A @ ch' @ ?B) = map fst (?A @ table t ! ?i @ ?B)"
      using s by simp
    then have d': "distinct (map fst (?A @ ch' @ ?B))"
      using d by (simp only:)
    have bk': "\<forall>kv \<in> set ch'. h (fst kv) mod capacity t = ?i"
      using bk s by (simp add: hash_def)
    have sz': "size_ht t = length (?A @ ch' @ ?B)"
      using sz s by simp
    have "ht_wf h (t\<lparr>table := (table t)[?i := ch'], size_ht := size_ht t\<rparr>)"
      by (rule update_bucket_wf[OF wf i bk' d' sz'])
    then show ?thesis using Some by (simp add: insert_node_def Let_def)
  qed
qed

lemma unlink_node_None: "unlink_node h t k = None \<longleftrightarrow> ht_get h t k = None"
  using chain_remove_None_get[of "table t ! hash h t k" k]
  by (cases "chain_remove (table t ! hash h t k) k") (auto simp: unlink_node_def Let_def ht_get_def)

lemma unlink_node_props:
  assumes wf: "ht_wf h t" and u: "unlink_node h t k = Some t1"
  shows "ht_wf h t1" "capacity t1 = capacity t" "Suc (size_ht t1) = size_ht t"
    "ht_get h t1 k' = (if k' = k then None else ht_get h t k')"
proof -
  let ?i = "hash h t k"
  have i: "?i < capacity t" using hash_less[OF wf, of k] wf by (simp add: ht_wf_def)
  have il: "?i < length (table t)" using hash_less[OF wf] .
  obtain ch' where c: "chain_remove (table t ! ?i) k = Some ch'"
    and t1: "t1 = t\<lparr>table := (table t)[?i := ch'], size_ht := size_ht t - 1\<rparr>"
    using u by (auto simp: unlink_node_def Let_def split: option.splits)
  from chain_remove_Some[OF c] obtain pre post w where
    s: "table t ! ?i = pre @ (k, w) # post" "ch' = pre @ post" "k \<notin> fst ` set pre" by blast
  have bk: "\<forall>kv \<in> set (table t ! ?i). h (fst kv) mod capacity t = ?i"
    using wf il by (simp add: ht_wf_def buckets_ok_def)
  have d: "distinct (map fst (concat (take ?i (table t)) @ table t ! ?i @ concat (drop (Suc ?i) (table t))))"
    using wf concat_nth_split[OF il] by (simp add: ht_wf_def)
  have sz: "size_ht t = length (concat (take ?i (table t)) @ table t ! ?i @ concat (drop (Suc ?i) (table t)))"
    using wf concat_nth_split[OF il] by (simp add: ht_wf_def)
  let ?A = "concat (take ?i (table t))" and ?B = "concat (drop (Suc ?i) (table t))"
  have "distinct (map fst ((?A @ pre) @ (k, w) # (post @ ?B)))"
    using d s by simp
  then have "distinct (map fst ((?A @ pre) @ (post @ ?B)))"
    by (simp del: append_assoc)
  then have d': "distinct (map fst (?A @ ch' @ ?B))"
    using s by simp
  have bk': "\<forall>kv \<in> set ch'. h (fst kv) mod capacity t = ?i"
    using bk s by simp
  have sz': "size_ht t - 1 = length (?A @ ch' @ ?B)"
    using sz s by simp
  show wf1: "ht_wf h t1"
    unfolding t1 by (rule update_bucket_wf[OF wf i bk' d' sz'])
  show "capacity t1 = capacity t" by (simp add: t1)
  show "Suc (size_ht t1) = size_ht t" using sz s by (simp add: t1)
  have kp: "k \<notin> fst ` set post" using d s by simp
  have "chain_get ch' k' = (if k' = k then None else chain_get (table t ! ?i) k')"
    using s kp chain_get_drop[of k pre post k' w] by simp
  then show "ht_get h t1 k' = (if k' = k then None else ht_get h t k')"
    using il hash_less[OF wf, of k']
    by (auto simp: t1 ht_get_def hash_def nth_list_update)
qed

theorem ht_insert_wf: "ht_wf h t \<Longrightarrow> ht_wf h (ht_insert h t k v)"
  by (simp add: ht_insert_alt insert_node_wf resize_wf ht_wf_def[of h t])

theorem ht_insert_get:
  "ht_wf h t \<Longrightarrow> ht_get h (ht_insert h t k v) k' = (if k' = k then Some v else ht_get h t k')"
  by (simp add: ht_insert_alt insert_node_get resize_wf resize_get ht_wf_def[of h t])

theorem ht_remove_wf: "ht_wf h t \<Longrightarrow> ht_wf h (snd (ht_remove h t k))"
  by (auto simp: ht_remove_alt unlink_node_props resize_wf split: option.splits)

theorem ht_remove_get:
  "ht_wf h t \<Longrightarrow> ht_get h (snd (ht_remove h t k)) k' = (if k' = k then None else ht_get h t k')"
  by (auto simp: ht_remove_alt unlink_node_props unlink_node_None resize_wf resize_get
      split: option.splits)

theorem ht_remove_found: "fst (ht_remove h t k) \<longleftrightarrow> ht_get h t k \<noteq> None"
  by (cases "unlink_node h t k") (simp_all add: ht_remove_alt unlink_node_None[symmetric])

lemma HashTable_new_default: "HashTable_new 8 = Inr HashTable_default"
  by (simp add: HashTable_new_def HashTable_default_def)

lemma HashTable_default_wf: "ht_wf h HashTable_default"
  by (simp add: ht_wf_def HashTable_default_def buckets_ok_def)

section \<open>The storage engine keeps the table well formed\<close>

declare enforce_memory_limits.simps [simp del]

lemma enforce_memory_limits_wf:
  "ht_wf h (store s) \<Longrightarrow> ht_wf h (store (enforce_memory_limits h s))"
proof (induction h s rule: enforce_memory_limits.induct)
  case (1 h s)
  show ?case
  proof (cases "max_memory s < current_memory s")
    case False
    then show ?thesis using "1.prems" by (simp add: enforce_memory_limits.simps[of h s])
  next
    case over: True
    obtain key q where e: "evict_lru (mem_manager s) = (key, q)"
      by (cases "evict_lru (mem_manager s)")
    show ?thesis
    proof (cases "key = []")
      case True
      then show ?thesis
        using over e "1.prems" by (simp add: enforce_memory_limits.simps[of h s])
    next
      case False
      show ?thesis
      proof (cases "ht_get h (store s) key")
        case None
        then show ?thesis
          using "1.IH"(1)[OF over e[symmetric] False None] over e False "1.prems"
          by (simp add: enforce_memory_limits.simps[of h s])
      next
        case (Some entry)
        then show ?thesis
          using "1.IH"(2)[OF over e[symmetric] False Some] over e False "1.prems"
          by (simp add: enforce_memory_limits.simps[of h s] ht_remove_wf)
      qed
    qed
  qed
qed

lemma StorageEngine_new_wf: "ht_wf h (store (StorageEngine_new m))"
  by (simp add: StorageEngine_new_def HashTable_default_wf)

lemma StorageEngine_set_wf:
  "ht_wf h (store s) \<Longrightarrow> ht_wf h (store (StorageEngine_set h s k v tt now))"
  by (simp add: StorageEngine_set_def Let_def enforce_memory_limits_wf ht_insert_wf)

lemma StorageEngine_get_wf:
  "ht_wf h (store s) \<Longrightarrow> ht_wf h (store (snd (StorageEngine_get h s k now1 now2)))"
  by (simp add: StorageEngine_get_def Let_def ht_insert_wf ht_remove_wf split: option.splits)

lemma StorageEngine_del_wf:
  "ht_wf h (store s) \<Longrightarrow> ht_wf h (store (snd (StorageEngine_del h s k)))"
  by (simp add: StorageEngine_del_def ht_remove_wf split: option.splits)

lemma remove_batch_wf:
  "ht_wf h (store s) \<Longrightarrow> ht_wf h (store (remove_batch h s ks))"
  by (induction ks arbitrary: s) (simp_all add: ht_remove_wf)

lemma evict_expired_wf:
  "ht_wf h (store s) \<Longrightarrow> ht_wf h (store (evict_expired h s now))"
  by (simp add: evict_expired_def remove_batch_wf)

definition example_engine :: StorageEngine where
  "example_engine =
     StorageEngine_set length
       (StorageEngine_set length (StorageEngine_new 1024) ''a'' ''1'' seconds_max 0)
       ''b'' ''22'' seconds_max 1"

lemma removeAll_filter: "removeAll k xs = filter (\<lambda>x. x \<noteq> k) xs"
  by (induction xs) auto

lemma unat_sub_of_nat:
  fixes a :: "64 word"
  assumes "n \<le> unat a"
  shows "unat (a - of_nat n) = unat a - n"
proof -
  have "n < 2 ^ 64" using assms unsigned_less[of a, where 'a = nat] by simp
  then have u: "unat (of_nat n :: 64 word) = n" by (simp add: unat_of_nat)
  then have "(of_nat n :: 64 word) \<le> a" using assms by (simp add: word_le_nat_alt)
  then show ?thesis using u by (simp add: unat_sub)
qed

text \<open>
  Claim C9: when \<open>k\<close> is present, \<^verbatim>\<open>del\<close> returns \<^verbatim>\<open>true\<close>, removes exactly \<open>k\<close> from
  the table and from the LRU queue, decreases \<^verbatim>\<open>current_memory\<close> by the length of \<open>k\<close>
  plus the length of its value, and leaves the entry of every other key and the order of
  the other keys in the queue as they are; when \<open>k\<close> is absent, \<^verbatim>\<open>del\<close> returns
  \<^verbatim>\<open>false\<close> and leaves the whole state as it is. The decrease is that of the 64-bit
  counter; it is the decrease of the number when the counter holds at least the bytes of
  the entry.
\<close>

theorem del_frame:
  assumes "ht_wf h (store s)"
  shows "case ht_get h (store s) k of
           Some e \<Rightarrow>
             fst (StorageEngine_del h s k) = True \<and>
             ht_get h (store (snd (StorageEngine_del h s k))) k = None \<and>
             (\<forall>k'. k' \<noteq> k \<longrightarrow>
                ht_get h (store (snd (StorageEngine_del h s k))) k' = ht_get h (store s) k') \<and>
             mem_manager (snd (StorageEngine_del h s k)) = filter (\<lambda>x. x \<noteq> k) (mem_manager s) \<and>
             current_memory (snd (StorageEngine_del h s k)) =
               current_memory s - of_nat (length k + length (val e)) \<and>
             (length k + length (val e) \<le> unat (current_memory s) \<longrightarrow>
                unat (current_memory (snd (StorageEngine_del h s k))) =
                  unat (current_memory s) - (length k + length (val e))) \<and>
             max_memory (snd (StorageEngine_del h s k)) = max_memory s \<and>
             ht_wf h (store (snd (StorageEngine_del h s k)))
         | None \<Rightarrow> StorageEngine_del h s k = (False, s)"
proof (cases "ht_get h (store s) k")
  case None
  then show ?thesis by (simp add: StorageEngine_del_def)
next
  case (Some e)
  let ?r = "StorageEngine_del h s k"
  have r: "?r = (True, s\<lparr>current_memory := current_memory s - entry_bytes k e,
                           store := snd (ht_remove h (store s) k),
                           mem_manager := evict_lru_key (mem_manager s) k\<rparr>)"
    using Some by (simp add: StorageEngine_del_def)
  have g1: "fst ?r = True" by (simp add: r)
  have g2: "ht_get h (store (snd ?r)) k = None"
    using assms by (simp add: r ht_remove_get)
  have g3: "\<forall>k'. k' \<noteq> k \<longrightarrow> ht_get h (store (snd ?r)) k' = ht_get h (store s) k'"
    using assms by (simp add: r ht_remove_get)
  have g4: "mem_manager (snd ?r) = filter (\<lambda>x. x \<noteq> k) (mem_manager s)"
    by (simp add: r evict_lru_key_def removeAll_filter)
  have g5: "current_memory (snd ?r) = current_memory s - of_nat (length k + length (val e))"
    by (simp add: r entry_bytes_def)
  have g6: "length k + length (val e) \<le> unat (current_memory s) \<longrightarrow>
      unat (current_memory (snd ?r)) = unat (current_memory s) - (length k + length (val e))"
    unfolding g5 using unat_sub_of_nat by blast
  have g7: "max_memory (snd ?r) = max_memory s" by (simp add: r)
  have g8: "ht_wf h (store (snd ?r))"
    using assms by (simp add: r ht_remove_wf)
  show ?thesis
    unfolding Some option.case using g1 g2 g3 g4 g5 g6 g7 g8 by blast
qed

theorem del_frame_witness:
  "ht_wf length (store example_engine) \<and>
   StorageEngine_del length example_engine ''c'' = (False, example_engine) \<and>
   fst (StorageEngine_del length example_engine ''a'') = True \<and>
   ht_get length (store (snd (StorageEngine_del length example_engine ''a''))) ''a'' = None \<and>
   ht_get length (store (snd (StorageEngine_del length example_engine ''a''))) ''b''
     = Some \<lparr>val = ''22'', ttl = seconds_max, last_accessed = 1\<rparr> \<and>
   mem_manager example_engine = [''b'', ''a''] \<and>
   mem_manager (snd (StorageEngine_del length example_engine ''a'')) = [''b''] \<and>
   current_memory example_engine = 5 \<and>
   current_memory (snd (StorageEngine_del length example_engine ''a'')) = 3"
proof -
  have wf: "ht_wf length (store example_engine)"
    by (simp add: example_engine_def StorageEngine_set_wf StorageEngine_new_wf)
  have a: "ht_get length (store example_engine) ''a''
             = Some \<lparr>val = ''1'', ttl = seconds_max, last_accessed = 0\<rparr>"
    by code_simp
  have c: "ht_get length (store example_engine) ''c'' = None"
    by code_simp
  have b: "ht_get length (store example_engine) ''b''
             = Some \<lparr>val = ''22'', ttl = seconds_max, last_accessed = 1\<rparr>"
    by code_simp
  have m: "mem_manager example_engine = [''b'', ''a'']" "current_memory example_engine = 5"
    by code_simp+
  show ?thesis
    using wf del_frame[OF wf, of "''a''"] del_frame[OF wf, of "''c''"] a b c m
    by simp
qed

section \<open>Conversion of a \<^verbatim>\<open>ttl\<close> to nanoseconds\<close>

text \<open>
  The conversion is exact for every \<^verbatim>\<open>ttl\<close> whose nanoseconds fit 64 bits, among them
  every \<^verbatim>\<open>ttl\<close> the SET handler passes (an \<^verbatim>\<open>int\<close> of 32 bits); above that it wraps, and an
  entry set with such a \<^verbatim>\<open>ttl\<close> can count as expired at once.
\<close>

lemma to_nanoseconds_exact:
  "- 9223372036 \<le> secs \<Longrightarrow> secs \<le> 9223372036 \<Longrightarrow> to_nanoseconds secs = secs * 1000000000"
proof -
  assume lo: "- 9223372036 \<le> secs" and hi: "secs \<le> 9223372036"
  define x where "x = secs * 1000000000"
  have b: "- (2 ^ 63) \<le> x" "x < 2 ^ 63"
    using lo hi by (simp_all add: x_def)
  have "sint (word_of_int x :: 64 word) = signed_take_bit 63 x"
    by (simp add: sint_sbintrunc')
  also have "\<dots> = x"
    using b by (rule signed_take_bit_int_eq_self)
  finally show ?thesis
    by (simp only: to_nanoseconds_def x_def)
qed

lemma expired_exact:
  "- 9223372036 \<le> ttl e \<Longrightarrow> ttl e \<le> 9223372036 \<Longrightarrow>
   expired now e \<longleftrightarrow> now - last_accessed e > ttl e * 1000000000"
  by (simp add: expired_def to_nanoseconds_exact seconds_max_def)

lemma to_nanoseconds_wraps:
  "to_nanoseconds 9223372037 = - 9223372036709551616"
  by (simp add: to_nanoseconds_def)

lemma expired_after_wrap:
  "expired 1 \<lparr>val = ''v'', ttl = 9223372037, last_accessed = 0\<rparr>"
  by (simp add: expired_def to_nanoseconds_def seconds_max_def)

section \<open>Expiry on read\<close>

definition ttl_engine :: StorageEngine where
  "ttl_engine =
     StorageEngine_set length
       (StorageEngine_set length (StorageEngine_new 1024) ''a'' ''1'' 1 0)
       ''b'' ''2'' seconds_max 0"

text \<open>
  Claim C1: \<^verbatim>\<open>get\<close> on a key whose entry has a \<^verbatim>\<open>ttl\<close> other than the sentinel and
  \<open>now - last_accessed > ttl\<close> at the call returns the not-found result and does not move
  the key to the front of the LRU queue. The code does otherwise: \<^verbatim>\<open>get\<close> stores the
  clock reading in \<^verbatim>\<open>last_accessed\<close> before it tests the entry, so the test compares two
  consecutive clock readings. Below, the entry of \<open>a\<close> (a \<^verbatim>\<open>ttl\<close> of one second, last
  accessed at 0) is read when the clock stands at 5 seconds: it is expired at the call,
  and \<^verbatim>\<open>get\<close> returns its value, moves \<open>a\<close> to the front of the queue and leaves the
  entry in the table with a fresh time stamp.
\<close>

theorem get_revives_expired_entry:
  "ht_get length (store ttl_engine) ''a'' = Some \<lparr>val = ''1'', ttl = 1, last_accessed = 0\<rparr> \<and>
   expired 5000000000 \<lparr>val = ''1'', ttl = 1, last_accessed = 0\<rparr> \<and>
   mem_manager ttl_engine = [''b'', ''a''] \<and>
   fst (StorageEngine_get length ttl_engine ''a'' 5000000000 5000001000) = ''1'' \<and>
   mem_manager (snd (StorageEngine_get length ttl_engine ''a'' 5000000000 5000001000)) = [''a'', ''b''] \<and>
   ht_get length (store (snd (StorageEngine_get length ttl_engine ''a'' 5000000000 5000001000))) ''a''
     = Some \<lparr>val = ''1'', ttl = 1, last_accessed = 5000000000\<rparr>"
  by code_simp

section \<open>Byte accounting\<close>

definition live_bytes :: "StorageEngine \<Rightarrow> nat" where
  "live_bytes s = sum_list (map (\<lambda>(k, e). length k + length (val e)) (concat (table (store s))))"

text \<open>
  Claim C2: in every state reached by \<^verbatim>\<open>set\<close>, \<^verbatim>\<open>get\<close>, \<^verbatim>\<open>del\<close>,
  \<^verbatim>\<open>enforce_memory_limits\<close> and \<^verbatim>\<open>evict_expired\<close>, \<^verbatim>\<open>current_memory\<close> is the sum of
  the key and value lengths of the entries in the table. The code does otherwise:
  \<^verbatim>\<open>evict_expired\<close> removes entries and leaves \<^verbatim>\<open>current_memory\<close> as it is. Below, one
  entry of two bytes is set and expires; after \<^verbatim>\<open>evict_expired\<close> the table is empty and
  \<^verbatim>\<open>current_memory\<close> is still 2.
\<close>

theorem evict_expired_keeps_bytes_of_removed_entries:
  "live_bytes (StorageEngine_set length (StorageEngine_new 1024) ''k'' ''v'' 1 0) = 2 \<and>
   current_memory (StorageEngine_set length (StorageEngine_new 1024) ''k'' ''v'' 1 0) = 2 \<and>
   live_bytes (evict_expired length
      (StorageEngine_set length (StorageEngine_new 1024) ''k'' ''v'' 1 0) 5000000000) = 0 \<and>
   current_memory (evict_expired length
      (StorageEngine_set length (StorageEngine_new 1024) ''k'' ''v'' 1 0) 5000000000) = 2"
  by code_simp

section \<open>The byte budget and the empty key\<close>

text \<open>
  Claim C5: after any \<^verbatim>\<open>set\<close>, \<^verbatim>\<open>del\<close> or eviction pass, \<^verbatim>\<open>current_memory\<close> is at most
  \<^verbatim>\<open>max_memory\<close> or the LRU queue is empty, for every key, the empty key included. The
  code does otherwise for the empty key: \<^verbatim>\<open>evict_lru()\<close> returns \<^verbatim>\<open>""\<close> for an empty
  queue, and \<^verbatim>\<open>enforce_memory_limits\<close> stops at a key that is empty. Below, with a
  budget of 10 bytes, the empty key is set to a value of 8 bytes and then \<open>b\<close> to one of 4:
  the second \<^verbatim>\<open>set\<close> pops the empty key off the queue and stops, with 13 bytes
  accounted, \<open>b\<close> in the queue and both entries in the table.
\<close>

theorem empty_key_stops_eviction:
  "max_memory
     (StorageEngine_set length
        (StorageEngine_set length (StorageEngine_new 10) [] ''aaaaaaaa'' seconds_max 0)
        ''b'' ''cccc'' seconds_max 1) = 10 \<and>
   current_memory
     (StorageEngine_set length
        (StorageEngine_set length (StorageEngine_new 10) [] ''aaaaaaaa'' seconds_max 0)
        ''b'' ''cccc'' seconds_max 1) = 13 \<and>
   mem_manager
     (StorageEngine_set length
        (StorageEngine_set length (StorageEngine_new 10) [] ''aaaaaaaa'' seconds_max 0)
        ''b'' ''cccc'' seconds_max 1) = [''b''] \<and>
   map fst (concat (table (store
     (StorageEngine_set length
        (StorageEngine_set length (StorageEngine_new 10) [] ''aaaaaaaa'' seconds_max 0)
        ''b'' ''cccc'' seconds_max 1)))) = [[], ''b'']"
  by code_simp

text \<open>
  The same two commands as they arrive from a client, the empty key as a bulk string of
  length 0: the server makes the same two calls of \<^verbatim>\<open>set\<close> (here both with the one
  clock reading of \<open>server_exec\<close>).
\<close>

lemma empty_key_over_the_wire:
  "process_commands (server_exec 0)
     (idle_connection
        (''*3'' @ CRLF @ ''$3'' @ CRLF @ ''SET'' @ CRLF @ ''$0'' @ CRLF @ CRLF @ ''$8'' @ CRLF @ ''aaaaaaaa'' @ CRLF @
         ''*3'' @ CRLF @ ''$3'' @ CRLF @ ''SET'' @ CRLF @ ''$1'' @ CRLF @ ''b'' @ CRLF @ ''$4'' @ CRLF @ ''cccc'' @ CRLF))
     (StorageEngine_new 10)
   = (True,
      \<lparr>conn_state = CONNECTED, input_buffer = [], output_queue = [''+OK'' @ CRLF, ''+OK'' @ CRLF]\<rparr>,
      StorageEngine_set length
        (StorageEngine_set length (StorageEngine_new 10) [] ''aaaaaaaa'' seconds_max 0)
        ''b'' ''cccc'' seconds_max 0)"
  by code_simp

section \<open>Load factor\<close>

datatype ('k, 'v) ht_op = Insert 'k 'v | Remove 'k

fun apply_op :: "('k \<Rightarrow> nat) \<Rightarrow> ('k, 'v) HashTable \<Rightarrow> ('k, 'v) ht_op \<Rightarrow> ('k, 'v) HashTable" where
  "apply_op h t (Insert k v) = ht_insert h t k v"
| "apply_op h t (Remove k) = snd (ht_remove h t k)"

definition run_ops :: "('k \<Rightarrow> nat) \<Rightarrow> ('k, 'v) HashTable \<Rightarrow> ('k, 'v) ht_op list \<Rightarrow> ('k, 'v) HashTable" where
  "run_ops h t ops = foldl (apply_op h) t ops"

definition load_inv :: "('k, 'v) HashTable \<Rightarrow> bool" where
  "load_inv t \<longleftrightarrow>
     (\<exists>j. capacity t = 8 * 2 ^ j) \<and>
     10 * size_ht t < 7 * capacity t + 10 \<and>
     (8 < capacity t \<longrightarrow> capacity t \<le> 5 * size_ht t)"

lemma resize_capacity [simp]: "capacity (resize h t n) = n"
  by (simp add: resize_def)

lemma resize_size [simp]: "size_ht (resize h t n) = size_ht t"
  by (simp add: resize_def)

lemma insert_load_inv:
  assumes "load_inv t"
  shows "load_inv (ht_insert h t k v)"
proof -
  obtain j where j: "capacity t = 8 * 2 ^ j" using assms by (auto simp: load_inv_def)
  have c8: "8 \<le> capacity t" using j by simp
  show ?thesis
  proof (cases "7 * capacity t \<le> 10 * size_ht t")
    case True
    have "capacity (resize h t (2 * capacity t)) = 8 * 2 ^ Suc j" using j by simp
    then have "\<exists>j'. capacity (resize h t (2 * capacity t)) = 8 * 2 ^ j'" by blast
    then show ?thesis
      using True assms c8
      by (auto simp: ht_insert_alt load_inv_def insert_node_size)
  next
    case False
    then show ?thesis
      using assms by (auto simp: ht_insert_alt load_inv_def insert_node_size)
  qed
qed

lemma remove_load_inv:
  assumes "load_inv t" "ht_wf h t"
  shows "load_inv (snd (ht_remove h t k))"
proof (cases "unlink_node h t k")
  case None
  then show ?thesis using assms by (simp add: ht_remove_alt)
next
  case (Some t1)
  note p = unlink_node_props(2,3)[OF assms(2) Some]
  obtain j where j: "capacity t = 8 * 2 ^ j" using assms by (auto simp: load_inv_def)
  show ?thesis
  proof (cases "8 < capacity t1 \<and> 5 * size_ht t1 < capacity t1")
    case True
    then have "j \<noteq> 0" using p j by (cases j) auto
    then obtain j' where j': "j = Suc j'" by (cases j) auto
    have c: "capacity t1 div 2 = 8 * 2 ^ j'" using p j j' by simp
    then have "\<exists>i. capacity (resize h t1 (capacity t1 div 2)) = 8 * 2 ^ i" by simp
    then show ?thesis
      using True Some assms(1) p c j j'
      by (auto simp: ht_remove_alt load_inv_def)
  next
    case False
    then show ?thesis
      using Some assms(1) p
      by (auto simp: ht_remove_alt load_inv_def)
  qed
qed

lemma run_ops_inv:
  "ht_wf h t \<Longrightarrow> load_inv t \<Longrightarrow> ht_wf h (run_ops h t ops) \<and> load_inv (run_ops h t ops)"
proof (induction ops arbitrary: t)
  case Nil
  then show ?case by (simp add: run_ops_def)
next
  case (Cons op ops)
  have "ht_wf h (apply_op h t op) \<and> load_inv (apply_op h t op)"
    using Cons.prems
    by (cases op) (simp_all add: ht_insert_wf ht_remove_wf insert_load_inv remove_load_inv)
  then show ?case using Cons.IH[of "apply_op h t op"] by (simp add: run_ops_def)
qed

text \<open>
  Claim C6, amended: after every sequence of \<^verbatim>\<open>insert\<close> and \<^verbatim>\<open>remove\<close> operations on a
  default constructed table, \<open>size < 0.7 * capacity + 1\<close>, and \<open>0.2 * capacity \<le> size\<close>
  whenever the capacity is above 8. (\<^verbatim>\<open>insert\<close> tests the load factor before it adds the
  node, so the load factor exceeds 0.7 by less than one node.)
\<close>

theorem load_factor_bounds:
  "10 * size_ht (run_ops h HashTable_default ops) < 7 * capacity (run_ops h HashTable_default ops) + 10 \<and>
   (8 < capacity (run_ops h HashTable_default ops) \<longrightarrow>
      capacity (run_ops h HashTable_default ops) \<le> 5 * size_ht (run_ops h HashTable_default ops))"
proof -
  have "load_inv (HashTable_default :: ('a, 'b) HashTable)"
    by (simp add: load_inv_def HashTable_default_def exI[of _ 0])
  then show ?thesis
    using run_ops_inv[OF HashTable_default_wf, of h ops] by (simp add: load_inv_def)
qed

theorem load_factor_bounds_witness:
  "capacity (run_ops id HashTable_default
      [Insert (0::nat) (), Insert 1 (), Insert 2 (), Insert 3 (), Insert 4 (), Insert 5 (),
       Insert 6 ()]) = 16 \<and>
   size_ht (run_ops id HashTable_default
      [Insert (0::nat) (), Insert 1 (), Insert 2 (), Insert 3 (), Insert 4 (), Insert 5 (),
       Insert 6 ()]) = 7 \<and>
   16 \<le> 5 * size_ht (run_ops id HashTable_default
      [Insert (0::nat) (), Insert 1 (), Insert 2 (), Insert 3 (), Insert 4 (), Insert 5 (),
       Insert 6 ()])"
proof -
  have c: "capacity (run_ops id HashTable_default
      [Insert (0::nat) (), Insert 1 (), Insert 2 (), Insert 3 (), Insert 4 (), Insert 5 (),
       Insert 6 ()]) = 16"
    by code_simp
  have s: "size_ht (run_ops id HashTable_default
      [Insert (0::nat) (), Insert 1 (), Insert 2 (), Insert 3 (), Insert 4 (), Insert 5 (),
       Insert 6 ()]) = 7"
    by code_simp
  show ?thesis
    using c s load_factor_bounds[of id
      "[Insert (0::nat) (), Insert 1 (), Insert 2 (), Insert 3 (), Insert 4 (), Insert 5 (),
        Insert 6 ()]"]
    by simp
qed

text \<open>
  Claim C6 as stated, a load factor within \<open>[0.2, 0.7]\<close> after every operation except at
  capacity 8, fails: twelve inserts of distinct keys leave 12 nodes in 16 buckets.
\<close>

theorem load_factor_above_seven_tenths:
  "capacity (run_ops id HashTable_default
      [Insert (0::nat) (), Insert 1 (), Insert 2 (), Insert 3 (), Insert 4 (), Insert 5 (),
       Insert 6 (), Insert 7 (), Insert 8 (), Insert 9 (), Insert 10 (), Insert 11 ()]) = 16 \<and>
   size_ht (run_ops id HashTable_default
      [Insert (0::nat) (), Insert 1 (), Insert 2 (), Insert 3 (), Insert 4 (), Insert 5 (),
       Insert 6 (), Insert 7 (), Insert 8 (), Insert 9 (), Insert 10 (), Insert 11 ()]) = 12 \<and>
   \<not> (10 * size_ht (run_ops id HashTable_default
      [Insert (0::nat) (), Insert 1 (), Insert 2 (), Insert 3 (), Insert 4 (), Insert 5 (),
       Insert 6 (), Insert 7 (), Insert 8 (), Insert 9 (), Insert 10 (), Insert 11 ()])
     \<le> 7 * capacity (run_ops id HashTable_default
      [Insert (0::nat) (), Insert 1 (), Insert 2 (), Insert 3 (), Insert 4 (), Insert 5 (),
       Insert 6 (), Insert 7 (), Insert 8 (), Insert 9 (), Insert 10 (), Insert 11 ()]))"
  by code_simp

section \<open>Decimal conversions round trip\<close>

lemma of_char_digit_char: "d < 10 \<Longrightarrow> (of_char (digit_char d) :: nat) = 48 + d"
  by (simp add: digit_char_def)

lemma isdigit_digit_char: "d < 10 \<Longrightarrow> isdigit (digit_char d)"
  by (simp add: isdigit_def of_char_digit_char)

lemma isdigit_not_space: "isdigit c \<Longrightarrow> \<not> isspace c"
  by (auto simp: isdigit_def isspace_def)

lemma isdigit_not_sign: "isdigit c \<Longrightarrow> c \<noteq> CHR ''-'' \<and> c \<noteq> CHR ''+''"
  by (auto simp: isdigit_def)

lemma isdigit_not_CR: "isdigit c \<Longrightarrow> c \<noteq> CHR 0x0D"
  by (auto simp: isdigit_def)

lemma digits_of_isdigit: "c \<in> set (digits_of n) \<Longrightarrow> isdigit c"
proof (induction n rule: digits_of.induct)
  case (1 n)
  then show ?case
    by (subst (asm) (2) digits_of.simps) (auto simp: isdigit_digit_char split: if_splits)
qed

lemma digits_of_nonempty: "digits_of n \<noteq> []"
  by (subst digits_of.simps) simp

lemma digits_value_append:
  "digits_value acc (xs @ ys) = digits_value (digits_value acc xs) ys"
  by (induction xs arbitrary: acc) auto

lemma digits_value_digits_of: "digits_value 0 (digits_of n) = n"
proof (induction n rule: digits_of.induct)
  case (1 n)
  show ?case
  proof (cases "n < 10")
    case True
    then show ?thesis by (subst digits_of.simps) (simp add: of_char_digit_char)
  next
    case False
    then show ?thesis
      using "1.IH" by (subst digits_of.simps) (simp add: digits_value_append of_char_digit_char)
  qed
qed

lemma strtol_digits:
  assumes "ds \<noteq> []" "\<forall>c \<in> set ds. isdigit c"
  shows "strtol ds = Some (int (digits_value 0 ds))"
proof -
  obtain c cs where ds: "ds = c # cs" using assms(1) by (cases ds) auto
  have c: "isdigit c" using assms(2) ds by simp
  have "dropWhile isspace ds = ds" using c ds isdigit_not_space by simp
  moreover have "takeWhile isdigit ds = ds" using assms(2) by (simp add: takeWhile_eq_all_conv)
  ultimately show ?thesis
    using ds isdigit_not_sign[OF c] by (simp add: strtol_def Let_def)
qed

lemma strtol_minus_digits:
  assumes "ds \<noteq> []" "\<forall>c \<in> set ds. isdigit c"
  shows "strtol (CHR ''-'' # ds) = Some (- int (digits_value 0 ds))"
proof -
  have sp: "\<not> isspace (CHR ''-'')" by (simp add: isspace_def)
  have tw: "takeWhile isdigit ds = ds" using assms(2) by (simp add: takeWhile_eq_all_conv)
  show ?thesis
    using assms(1) by (simp add: strtol_def Let_def sp tw)
qed

lemma strtol_to_string: "strtol (to_string i) = Some i"
proof (cases "i < 0")
  case True
  then show ?thesis
    using strtol_minus_digits[of "digits_of (nat (- i))"]
    by (simp add: to_string_def digits_of_nonempty digits_of_isdigit digits_value_digits_of)
next
  case False
  then show ?thesis
    using strtol_digits[of "digits_of (nat i)"]
    by (simp add: to_string_def digits_of_nonempty digits_of_isdigit digits_value_digits_of)
qed

lemma stoi_to_string:
  "- 2147483648 \<le> i \<Longrightarrow> i \<le> 2147483647 \<Longrightarrow> stoi (to_string i) = Some i"
  by (simp add: stoi_def strtol_to_string)

lemma stoll_to_string:
  "- 9223372036854775808 \<le> i \<Longrightarrow> i \<le> 9223372036854775807 \<Longrightarrow> stoll (to_string i) = Some i"
  by (simp add: stoll_def strtol_to_string)

section \<open>The expire argument of SET\<close>




section \<open>A stored empty value reads as a missing key\<close>

lemma enforce_memory_limits_get_Some:
  "ht_wf h (store s) \<Longrightarrow> ht_get h (store (enforce_memory_limits h s)) k = Some e \<Longrightarrow>
   ht_get h (store s) k = Some e"
proof (induction h s rule: enforce_memory_limits.induct)
  case (1 h s)
  show ?case
  proof (cases "max_memory s < current_memory s")
    case False
    then show ?thesis using "1.prems" by (simp add: enforce_memory_limits.simps[of h s])
  next
    case over: True
    obtain key q where ev: "evict_lru (mem_manager s) = (key, q)"
      by (cases "evict_lru (mem_manager s)")
    show ?thesis
    proof (cases "key = []")
      case True
      then show ?thesis
        using over ev "1.prems" by (simp add: enforce_memory_limits.simps[of h s])
    next
      case False
      show ?thesis
      proof (cases "ht_get h (store s) key")
        case None
        then show ?thesis
          using "1.IH"(1)[OF over ev[symmetric] False None] over ev False "1.prems"
          by (simp add: enforce_memory_limits.simps[of h s])
      next
        case (Some entry)
        let ?s' = "s\<lparr>mem_manager := q,
                      current_memory := current_memory s - entry_bytes key entry,
                      store := snd (ht_remove h (store s) key)\<rparr>"
        have "ht_get h (store (enforce_memory_limits h ?s')) k = Some e"
          using "1.prems"(2) over ev False Some by (simp add: enforce_memory_limits.simps[of h s])
        then have "ht_get h (store ?s') k = Some e"
          using "1.IH"(2)[OF over ev[symmetric] False Some] "1.prems"(1) by (simp add: ht_remove_wf)
        then show ?thesis
          using "1.prems"(1) by (simp add: ht_remove_get split: if_splits)
      qed
    qed
  qed
qed

lemma enforce_memory_limits_within:
  "\<not> max_memory s < current_memory s \<Longrightarrow> enforce_memory_limits h s = s"
  by (simp add: enforce_memory_limits.simps[of h s])

lemma to_string_1: "to_string 1 = ''1''"
  by code_simp

lemma to_string_0: "to_string 0 = ''0''"
  by code_simp

lemma handler_GET_absent:
  "ht_get h (store s) k = None \<Longrightarrow> handler_GET h s [k] now1 now2 = (''$-1'' @ CRLF, s)"
  by (simp add: handler_GET_def StorageEngine_get_def)

text \<open>
  Claim C10: after \<^verbatim>\<open>set(k, "")\<close> with the sentinel \<^verbatim>\<open>ttl\<close>, \<^verbatim>\<open>get(k)\<close> returns the empty
  string, as it does for an absent key, and the GET handler replies \<^verbatim>\<open>$-1\<close>, in every
  state. Whether \<^verbatim>\<open>del(k)\<close> then returns \<^verbatim>\<open>true\<close> depends on the byte budget: when the
  bytes accounted by that \<^verbatim>\<open>set\<close> do not exceed \<^verbatim>\<open>max_memory\<close>, and more generally
  whenever the eviction loop of that \<^verbatim>\<open>set\<close> has left \<open>k\<close> in the table, \<open>k\<close> holds the empty
  value, \<^verbatim>\<open>del(k)\<close> returns \<^verbatim>\<open>true\<close> and the DEL handler replies \<^verbatim>\<open>:1\<close>; when the loop has
  evicted \<open>k\<close>, \<^verbatim>\<open>del(k)\<close> returns \<^verbatim>\<open>false\<close> and the DEL handler replies \<^verbatim>\<open>:0\<close>.
\<close>

theorem empty_value_reads_as_missing:
  assumes wf: "ht_wf h (store s)"
  shows
   "fst (StorageEngine_get h (StorageEngine_set h s k [] seconds_max now) k now1 now2) = [] \<and>
    fst (handler_GET h (StorageEngine_set h s k [] seconds_max now) [k] now1 now2) = ''$-1'' @ CRLF \<and>
    (\<not> max_memory s <
         (case ht_get h (store s) k of
            Some old_entry \<Rightarrow> current_memory s - entry_bytes k old_entry
          | None \<Rightarrow> current_memory s) + (of_nat (length k) + of_nat (length ([] :: string))) \<longrightarrow>
       ht_get h (store (StorageEngine_set h s k [] seconds_max now)) k
         = Some \<lparr>val = [], ttl = seconds_max, last_accessed = now\<rparr> \<and>
       fst (StorageEngine_del h (StorageEngine_set h s k [] seconds_max now) k) = True \<and>
       fst (handler_DEL h (StorageEngine_set h s k [] seconds_max now) [k]) = '':1'' @ CRLF) \<and>
    (ht_get h (store (StorageEngine_set h s k [] seconds_max now)) k \<noteq> None \<longrightarrow>
       ht_get h (store (StorageEngine_set h s k [] seconds_max now)) k
         = Some \<lparr>val = [], ttl = seconds_max, last_accessed = now\<rparr> \<and>
       fst (StorageEngine_del h (StorageEngine_set h s k [] seconds_max now) k) = True \<and>
       fst (handler_DEL h (StorageEngine_set h s k [] seconds_max now) [k]) = '':1'' @ CRLF) \<and>
    (ht_get h (store (StorageEngine_set h s k [] seconds_max now)) k = None \<longrightarrow>
       fst (StorageEngine_del h (StorageEngine_set h s k [] seconds_max now) k) = False \<and>
       fst (handler_DEL h (StorageEngine_set h s k [] seconds_max now) [k]) = '':0'' @ CRLF) \<and>
    (\<forall>s'. ht_get h (store s') k = None \<longrightarrow>
       fst (StorageEngine_get h s' k now1 now2) = [] \<and>
       fst (handler_GET h s' [k] now1 now2) = ''$-1'' @ CRLF)"
proof -
  let ?new = "\<lparr>val = [], ttl = seconds_max, last_accessed = now\<rparr>"
  let ?s1 = "StorageEngine_set h s k [] seconds_max now"
  let ?pre = "s\<lparr>store := ht_insert h (store s) k ?new,
      current_memory := (case ht_get h (store s) k of
            Some old_entry \<Rightarrow> current_memory s - entry_bytes k old_entry
          | None \<Rightarrow> current_memory s) + (of_nat (length k) + of_nat (length ([] :: string))),
      mem_manager := update_lru (mem_manager s) k\<rparr>"
  have s1: "?s1 = enforce_memory_limits h ?pre"
    by (simp add: StorageEngine_set_def Let_def)
  have wfpre: "ht_wf h (store ?pre)" using wf by (simp add: ht_insert_wf)
  have held: "ht_get h (store ?s1) k = Some e \<Longrightarrow> e = ?new" for e
  proof -
    assume "ht_get h (store ?s1) k = Some e"
    then have "ht_get h (store ?pre) k = Some e"
      unfolding s1 using enforce_memory_limits_get_Some[OF wfpre] by blast
    then show "e = ?new" using wf by (simp add: ht_insert_get)
  qed
  have g: "fst (StorageEngine_get h ?s1 k now1 now2) = []"
  proof (cases "ht_get h (store ?s1) k")
    case None
    then show ?thesis by (simp add: StorageEngine_get_def)
  next
    case (Some e)
    then show ?thesis using held[OF Some] by (simp add: StorageEngine_get_def Let_def)
  qed
  have hg: "fst (handler_GET h ?s1 [k] now1 now2) = ''$-1'' @ CRLF"
    using g by (cases "StorageEngine_get h ?s1 k now1 now2") (simp add: handler_GET_def)
  have d: "ht_get h (store ?s1) k \<noteq> None \<longrightarrow>
       ht_get h (store ?s1) k = Some ?new \<and>
       fst (StorageEngine_del h ?s1 k) = True \<and>
       fst (handler_DEL h ?s1 [k]) = '':1'' @ CRLF"
    using held by (auto simp: handler_DEL_def StorageEngine_del_def to_string_1)
  have n: "ht_get h (store ?s1) k = None \<longrightarrow>
       fst (StorageEngine_del h ?s1 k) = False \<and>
       fst (handler_DEL h ?s1 [k]) = '':0'' @ CRLF"
    by (simp add: handler_DEL_def StorageEngine_del_def to_string_0)
  have b: "\<not> max_memory s < current_memory ?pre \<longrightarrow> ht_get h (store ?s1) k \<noteq> None"
  proof
    assume "\<not> max_memory s < current_memory ?pre"
    then have "enforce_memory_limits h ?pre = ?pre"
      by (intro enforce_memory_limits_within) simp
    then have "ht_get h (store ?s1) k = ht_get h (store ?pre) k"
      unfolding s1 by (simp only:)
    then show "ht_get h (store ?s1) k \<noteq> None"
      using wf by (simp add: ht_insert_get)
  qed
  have a: "\<forall>s'. ht_get h (store s') k = None \<longrightarrow>
       fst (StorageEngine_get h s' k now1 now2) = [] \<and>
       fst (handler_GET h s' [k] now1 now2) = ''$-1'' @ CRLF"
    by (simp add: handler_GET_absent StorageEngine_get_def)
  show ?thesis using g hg d n b a by simp
qed

theorem empty_value_reads_as_missing_witness:
  "ht_wf length (store (StorageEngine_new 1024)) \<and>
   fst (StorageEngine_get length
          (StorageEngine_set length (StorageEngine_new 1024) ''k'' [] seconds_max 0) ''k'' 1 2) = [] \<and>
   fst (handler_GET length
          (StorageEngine_set length (StorageEngine_new 1024) ''k'' [] seconds_max 0) [''k''] 1 2)
     = ''$-1'' @ CRLF \<and>
   fst (StorageEngine_del length
          (StorageEngine_set length (StorageEngine_new 1024) ''k'' [] seconds_max 0) ''k'') = True \<and>
   fst (handler_DEL length
          (StorageEngine_set length (StorageEngine_new 1024) ''k'' [] seconds_max 0) [''k''])
     = '':1'' @ CRLF \<and>
   ht_get length (store (StorageEngine_new 1024)) ''k'' = None \<and>
   fst (handler_GET length (StorageEngine_new 1024) [''k''] 1 2) = ''$-1'' @ CRLF \<and>
   ht_wf length (store (StorageEngine_new 0)) \<and>
   ht_get length (store (StorageEngine_set length (StorageEngine_new 0) ''q'' [] seconds_max 0)) ''q'' = None \<and>
   fst (StorageEngine_get length
          (StorageEngine_set length (StorageEngine_new 0) ''q'' [] seconds_max 0) ''q'' 1 2) = [] \<and>
   fst (handler_DEL length
          (StorageEngine_set length (StorageEngine_new 0) ''q'' [] seconds_max 0) [''q''])
     = '':0'' @ CRLF"
proof -
  have wf: "ht_wf length (store (StorageEngine_new 1024))"
    by (rule StorageEngine_new_wf)
  have wf0: "ht_wf length (store (StorageEngine_new 0))"
    by (rule StorageEngine_new_wf)
  have n: "ht_get length (store (StorageEngine_new 1024)) ''k'' = None"
    by code_simp
  have b: "\<not> max_memory (StorageEngine_new 1024) <
         (case ht_get length (store (StorageEngine_new 1024)) ''k'' of
            Some old_entry \<Rightarrow> current_memory (StorageEngine_new 1024) - entry_bytes ''k'' old_entry
          | None \<Rightarrow> current_memory (StorageEngine_new 1024))
         + (of_nat (length ''k'') + of_nat (length ([] :: string)))"
    by code_simp
  have e: "ht_get length (store (StorageEngine_set length (StorageEngine_new 0) ''q'' [] seconds_max 0)) ''q'' = None"
    by code_simp
  show ?thesis
    using wf wf0 n b e
      empty_value_reads_as_missing[OF wf, of "''k''" 0 1 2]
      empty_value_reads_as_missing[OF wf0, of "''q''" 0 1 2]
    by blast
qed

text \<open>
  Claim C10 as stated, \<^verbatim>\<open>del(k)\<close> returning \<^verbatim>\<open>true\<close> after every \<^verbatim>\<open>set(k, "")\<close>, fails when
  the \<^verbatim>\<open>set\<close> exceeds the byte budget and its eviction loop reaches \<open>k\<close> itself. With a
  budget of 0 bytes the one byte of the key is over the budget, and \<open>k\<close> is the only key
  of the queue. With a budget of 3 bytes, an entry of 3 bytes that expired and was
  removed by \<^verbatim>\<open>evict_expired\<close> is still accounted, so the \<^verbatim>\<open>set\<close> on the empty table
  accounts 4 bytes and evicts \<open>k\<close>. In both states \<^verbatim>\<open>del(k)\<close> returns \<^verbatim>\<open>false\<close> and the
  DEL handler replies \<^verbatim>\<open>:0\<close>.
\<close>

theorem empty_value_evicted_by_its_own_set:
  "max_memory (StorageEngine_new 0) = 0 \<and>
   ht_get length (store (StorageEngine_set length (StorageEngine_new 0) ''k'' [] seconds_max 0)) ''k'' = None \<and>
   fst (StorageEngine_get length
          (StorageEngine_set length (StorageEngine_new 0) ''k'' [] seconds_max 0) ''k'' 1 2) = [] \<and>
   fst (StorageEngine_del length
          (StorageEngine_set length (StorageEngine_new 0) ''k'' [] seconds_max 0) ''k'') = False \<and>
   fst (handler_DEL length
          (StorageEngine_set length (StorageEngine_new 0) ''k'' [] seconds_max 0) [''k''])
     = '':0'' @ CRLF \<and>
   concat (table (store (evict_expired length
      (StorageEngine_set length (StorageEngine_new 3) ''a'' ''bb'' 1 0) 5000000000))) = [] \<and>
   current_memory (evict_expired length
      (StorageEngine_set length (StorageEngine_new 3) ''a'' ''bb'' 1 0) 5000000000) = 3 \<and>
   fst (StorageEngine_del length
          (StorageEngine_set length
             (evict_expired length
                (StorageEngine_set length (StorageEngine_new 3) ''a'' ''bb'' 1 0) 5000000000)
             ''k'' [] seconds_max 6000000000) ''k'') = False \<and>
   fst (handler_DEL length
          (StorageEngine_set length
             (evict_expired length
                (StorageEngine_set length (StorageEngine_new 3) ''a'' ''bb'' 1 0) 5000000000)
             ''k'' [] seconds_max 6000000000) [''k''])
     = '':0'' @ CRLF"
  by code_simp

section \<open>Finding the first CRLF\<close>

lemma findCRLF_loop_eq:
  "i \<le> length data \<Longrightarrow> findCRLF_loop data i = map_option (\<lambda>j. i + j) (find_crlf (drop i data))"
proof (induction data i rule: findCRLF_loop.induct)
  case (1 data i)
  show ?case
  proof (cases "i + 1 < length data")
    case False
    then have "length (drop i data) \<le> 1" by simp
    then have "find_crlf (drop i data) = None"
      by (cases "drop i data" rule: find_crlf.cases) auto
    then show ?thesis using False by (subst findCRLF_loop.simps) simp
  next
    case True
    then have d: "drop i data = data ! i # data ! (i + 1) # drop (i + 2) data"
      by (metis Cons_nth_drop_Suc Suc_eq_plus1 add_2_eq_Suc' add_lessD1)
    have d1: "drop (i + 1) data = data ! (i + 1) # drop (i + 2) data"
      using True by (metis Cons_nth_drop_Suc Suc_eq_plus1 add_2_eq_Suc')
    show ?thesis
    proof (cases "data ! i = CHR 0x0D \<and> data ! (i + 1) = CHR 0x0A")
      case yes: True
      then show ?thesis using True d by (subst findCRLF_loop.simps) simp
    next
      case no: False
      have "findCRLF_loop data (i + 1) = map_option (\<lambda>j. i + 1 + j) (find_crlf (drop (i + 1) data))"
        using "1.IH"[OF True no] True by simp
      then show ?thesis
        using True no d d1
        by (subst findCRLF_loop.simps) (auto simp: option.map_comp comp_def)
    qed
  qed
qed

lemma findCRLF_eq:
  "findCRLF data start = map_option (\<lambda>j. start + j) (find_crlf (drop start data))"
  by (simp add: findCRLF_def findCRLF_loop_eq)

lemma find_crlf_at_end:
  "find_crlf s = None \<Longrightarrow> find_crlf (s @ CHR 0x0D # CHR 0x0A # rest) = Some (length s)"
  by (induction s rule: find_crlf.induct) (auto split: if_splits)



lemma find_crlf_no_CR: "CHR 0x0D \<notin> set s \<Longrightarrow> find_crlf s = None"
  by (induction s rule: find_crlf.induct) auto

text \<open>A header \<open>c # s @ CRLF\<close> whose text \<open>s\<close> holds no CRLF: found whole, not found cut.\<close>

lemma header_found:
  assumes "find_crlf s = None"
  shows "findCRLF (c # s @ CRLF @ rest) 1 = Some (Suc (length s))"
    and "substr (c # s @ CRLF @ rest) 1 (Suc (length s) - 1) = s"
  using assms find_crlf_at_end[OF assms, of rest]
  by (simp_all add: findCRLF_eq CRLF_def substr_def)


lemma to_string_no_CR: "CHR 0x0D \<notin> set (to_string n)"
  using digits_of_isdigit isdigit_not_CR by (auto simp: to_string_def)

lemma find_crlf_to_string: "find_crlf (to_string n) = None"
  by (simp add: find_crlf_no_CR to_string_no_CR)

section \<open>Encode, then parse\<close>

text \<open>
  The values the round trip holds for: the text of a simple string or an error holds no
  CRLF (\<open>findCRLF\<close> finds none), and the length of a bulk string and the number of elements
  of an array fit the \<^verbatim>\<open>int\<close> that \<^verbatim>\<open>std::stoi\<close> returns.
\<close>

fun resp_wf :: "RespValue \<Rightarrow> bool" where
  "resp_wf (SimpleString v) \<longleftrightarrow> findCRLF v 0 = None"
| "resp_wf (Error v) \<longleftrightarrow> findCRLF v 0 = None"
| "resp_wf (Integer v) \<longleftrightarrow> True"
| "resp_wf (BulkString v) \<longleftrightarrow> length v \<le> 2147483647"
| "resp_wf NullBulkString \<longleftrightarrow> True"
| "resp_wf (Array values) \<longleftrightarrow> length values \<le> 2147483647 \<and> list_all resp_wf values"
| "resp_wf NullArray \<longleftrightarrow> True"

lemma findCRLF_0: "findCRLF v 0 = None \<longleftrightarrow> find_crlf v = None"
  by (simp add: findCRLF_eq)


lemma parse_Cons:
  "parse (c # d) =
     (if c = CHR ''+'' then parseSimpleString (c # d)
      else if c = CHR ''-'' then parseError (c # d)
      else if c = CHR '':'' then parseInteger (c # d)
      else if c = CHR ''$'' then parseBulkString (c # d)
      else if c = CHR ''*'' then parseArray (c # d)
      else Inl ''Invalid RESP data type'')"
  by (simp add: parse.simps)

lemma encode_nonempty: "encode v \<noteq> []"
  by (cases v) simp_all

lemma stoi_minus_1: "stoi ''-1'' = Some (- 1)"
  by code_simp

lemma find_crlf_minus_1: "find_crlf ''-1'' = None"
  by simp

lemma stoll_sint: "stoll (to_string (sint (v :: 64 word))) = Some (sint v)"
proof -
  have "- 9223372036854775808 \<le> sint v" using sint_ge[of v] by simp
  moreover have "sint v \<le> 9223372036854775807" using sint_lt[of v] by simp
  ultimately show ?thesis by (rule stoll_to_string)
qed

lemma stoi_length: "n \<le> 2147483647 \<Longrightarrow> stoi (to_string (int n)) = Some (int n)"
  by (rule stoi_to_string) simp_all

text \<open>Each kind of value, followed by any bytes.\<close>

lemma parse_encode_SimpleString:
  "find_crlf s = None \<Longrightarrow>
   parse (encode (SimpleString s) @ rest) = Inr (Some (SimpleString s, length (encode (SimpleString s))))"
  using header_found[of s "CHR ''+''" rest]
  by (simp add: parse_Cons parseSimpleString_def CRLF_def)

lemma parse_encode_Error:
  "find_crlf s = None \<Longrightarrow>
   parse (encode (Error s) @ rest) = Inr (Some (Error s, length (encode (Error s))))"
  using header_found[of s "CHR ''-''" rest]
  by (simp add: parse_Cons parseError_def CRLF_def)

lemma parse_encode_Integer:
  "parse (encode (Integer v) @ rest) = Inr (Some (Integer v, length (encode (Integer v))))"
  using header_found[OF find_crlf_to_string, of "CHR '':''" "sint v" rest]
  by (simp add: parse_Cons parseInteger_def stoll_sint CRLF_def)

lemma parse_encode_BulkString:
  assumes "length s \<le> 2147483647"
  shows "parse (encode (BulkString s) @ rest) = Inr (Some (BulkString s, length (encode (BulkString s))))"
proof -
  let ?hdr = "to_string (int (length s))"
  let ?data = "CHR ''$'' # ?hdr @ CRLF @ (s @ CRLF @ rest)"
  have d: "encode (BulkString s) @ rest = ?data" by simp
  note h = header_found[OF find_crlf_to_string, of "CHR ''$''" "int (length s)" "s @ CRLF @ rest"]
  have sub: "substr ?data (Suc (length ?hdr) + 2) (length s) = s"
    by (simp add: substr_def CRLF_def)
  have len: "\<not> length ?data < Suc (length ?hdr) + 2 + length s + 2"
    by (simp add: CRLF_def)
  have "parseBulkString ?data = Inr (Some (BulkString s, Suc (length ?hdr) + 2 + length s + 2))"
    using h sub len stoi_length[OF assms]
    by (simp add: parseBulkString_def)
  then show ?thesis
    unfolding d by (simp add: parse_Cons CRLF_def)
qed

lemma parse_encode_NullBulkString:
  "parse (encode NullBulkString @ rest) = Inr (Some (NullBulkString, length (encode NullBulkString)))"
  using header_found[OF find_crlf_minus_1, of "CHR ''$''" rest]
  by (simp add: parse_Cons parseBulkString_def stoi_minus_1 CRLF_def)

lemma parse_encode_NullArray:
  "parse (encode NullArray @ rest) = Inr (Some (NullArray, length (encode NullArray)))"
  using header_found[OF find_crlf_minus_1, of "CHR ''*''" rest]
  by (simp add: parse_Cons parseArray.simps stoi_minus_1 CRLF_def)

lemma parseArray_loop_encoded:
  assumes "\<And>v r. v \<in> set vs \<Longrightarrow> parse (encode v @ r) = Inr (Some (v, length (encode v)))"
  shows "parseArray_loop (pre @ concat (map encode vs) @ rest) (length vs) (length pre) acc
           = Inr (Some (Array (acc @ vs), length pre + length (concat (map encode vs))))"
  using assms
proof (induction vs arbitrary: pre acc)
  case Nil
  then show ?case by (simp add: parseArray_loop.simps)
next
  case (Cons v vs)
  let ?data = "pre @ concat (map encode (v # vs)) @ rest"
  have p: "parse (drop (length pre) ?data) = Inr (Some (v, length (encode v)))"
    using Cons.prems[of v "concat (map encode vs) @ rest"] by simp
  have "parseArray_loop ?data (length (v # vs)) (length pre) acc
          = parseArray_loop ?data (length vs) (length pre + length (encode v)) (acc @ [v])"
    using p by (subst parseArray_loop.simps) (simp add: encode_nonempty)
  also have "\<dots> = parseArray_loop ((pre @ encode v) @ concat (map encode vs) @ rest) (length vs)
                      (length (pre @ encode v)) (acc @ [v])"
    by simp
  also have "\<dots> = Inr (Some (Array ((acc @ [v]) @ vs),
                      length (pre @ encode v) + length (concat (map encode vs))))"
    using Cons.prems by (intro Cons.IH) simp
  finally show ?case by simp
qed

lemma parse_encode_Array:
  assumes "length vs \<le> 2147483647"
    and "\<And>v r. v \<in> set vs \<Longrightarrow> parse (encode v @ r) = Inr (Some (v, length (encode v)))"
  shows "parse (encode (Array vs) @ rest) = Inr (Some (Array vs, length (encode (Array vs))))"
proof -
  let ?hdr = "to_string (int (length vs))"
  let ?pre = "CHR ''*'' # ?hdr @ CRLF"
  let ?data = "CHR ''*'' # ?hdr @ CRLF @ (concat (map encode vs) @ rest)"
  have d: "encode (Array vs) @ rest = ?data" by simp
  note h = header_found[OF find_crlf_to_string, of "CHR ''*''" "int (length vs)"
      "concat (map encode vs) @ rest"]
  have "parseArray_loop (?pre @ concat (map encode vs) @ rest) (length vs) (length ?pre) []
          = Inr (Some (Array ([] @ vs), length ?pre + length (concat (map encode vs))))"
    using assms(2) by (rule parseArray_loop_encoded)
  then have loop: "parseArray_loop ?data (length vs) (Suc (length ?hdr) + 2) []
          = Inr (Some (Array vs, Suc (length ?hdr) + 2 + length (concat (map encode vs))))"
    by (simp add: CRLF_def)
  have "parseArray ?data = Inr (Some (Array vs, Suc (length ?hdr) + 2 + length (concat (map encode vs))))"
    using h loop stoi_length[OF assms(1)]
    by (simp add: parseArray.simps)
  then show ?thesis
    unfolding d by (simp add: parse_Cons CRLF_def)
qed

lemma parse_encode_rest:
  "resp_wf v \<Longrightarrow> parse (encode v @ rest) = Inr (Some (v, length (encode v)))"
proof (induction v arbitrary: rest)
  case (SimpleString s)
  then show ?case using parse_encode_SimpleString by (simp only: resp_wf.simps findCRLF_0)
next
  case (Error s)
  then show ?case using parse_encode_Error by (simp only: resp_wf.simps findCRLF_0)
next
  case (Integer i)
  show ?case by (rule parse_encode_Integer)
next
  case (BulkString s)
  then show ?case using parse_encode_BulkString by (simp only: resp_wf.simps)
next
  case NullBulkString
  show ?case by (rule parse_encode_NullBulkString)
next
  case (Array vs)
  have "\<And>v r. v \<in> set vs \<Longrightarrow> parse (encode v @ r) = Inr (Some (v, length (encode v)))"
    using Array by (simp add: list_all_iff)
  then show ?case using Array.prems by (intro parse_encode_Array) simp_all
next
  case NullArray
  show ?case by (rule parse_encode_NullArray)
qed

section \<open>Parsing a message that is cut short\<close>










definition sample_value :: RespValue where
  "sample_value =
     Array [SimpleString ''OK'', Error ''ERR x'', Integer (- 7), BulkString (''a'' @ CRLF @ ''b''),
            NullBulkString, Array [BulkString ''GET'', BulkString ''k''], Array [], NullArray]"

lemma sample_value_wf: "resp_wf sample_value"
  by (simp add: sample_value_def findCRLF_def findCRLF_loop.simps CRLF_def)

lemma sample_value_length: "length (encode sample_value) = 66"
  by code_simp

text \<open>
  Claim C7, amended: for every RESP-2 value of the five wire types in which no simple
  string or error text holds a CRLF and every bulk string length and array size is at most
  2147483647, parsing the encoding of the value returns the value, and the number of
  bytes consumed is the length of the encoding.
\<close>

theorem encode_then_parse:
  "resp_wf v \<Longrightarrow> parse (encode v) = Inr (Some (v, length (encode v)))"
  using parse_encode_rest[of v "[]"] by simp

theorem encode_then_parse_witness:
  "resp_wf sample_value \<and>
   parse (encode sample_value) = Inr (Some (sample_value, 66))"
  using sample_value_wf sample_value_length encode_then_parse[OF sample_value_wf] by simp

text \<open>
  Claim C7 as stated, for every value, fails: the simple string \<^verbatim>\<open>a\r\nb\<close> is encoded
  as \<^verbatim>\<open>+a\r\nb\r\n\<close> and parsed back as the simple string \<^verbatim>\<open>a\<close>, 4 bytes consumed.
\<close>

theorem simple_string_with_CRLF_not_round_trip:
  "parse (encode (SimpleString (''a'' @ CRLF @ ''b''))) = Inr (Some (SimpleString ''a'', 4)) \<and>
   parse (encode (SimpleString (''a'' @ CRLF @ ''b'')))
     \<noteq> Inr (Some (SimpleString (''a'' @ CRLF @ ''b''),
                   length (encode (SimpleString (''a'' @ CRLF @ ''b'')))))"
  by code_simp



section \<open>What the framing skips and what it refuses\<close>

lemma process_loop_skip:
  assumes "\<And>p. pos \<le> p \<Longrightarrow> p < q \<Longrightarrow> input_buffer c ! p \<noteq> CHR ''*''"
    and "pos \<le> q" "q \<le> length (input_buffer c)"
  shows "process_loop exec c srv pos = process_loop exec c srv q"
  using assms
proof (induction "q - pos" arbitrary: pos)
  case 0
  then show ?case by simp
next
  case (Suc d)
  have "pos < length (input_buffer c)" "input_buffer c ! pos \<noteq> CHR ''*''"
    using Suc.hyps(2) Suc.prems by auto
  then have "process_loop exec c srv pos = process_loop exec c srv (pos + 1)"
    by (subst process_loop.simps) simp
  also have "\<dots> = process_loop exec c srv q"
    using Suc.hyps(2) Suc.prems by (intro Suc.hyps(1)) auto
  finally show ?case .
qed

lemma process_loop_end:
  "length (input_buffer c) \<le> pos \<Longrightarrow> process_loop exec c srv pos = (True, c, srv)"
  by (subst process_loop.simps) simp

lemma process_commands_skip:
  assumes "CHR ''*'' \<notin> set junk" "input_buffer c = junk @ rest"
  shows "process_commands exec c srv = process_loop exec c srv (length junk)"
  unfolding process_commands_def
proof (rule process_loop_skip)
  fix p assume "p < length junk"
  then show "input_buffer c ! p \<noteq> CHR ''*''"
    using assms by (metis nth_append nth_mem)
qed (simp_all add: assms(2))

lemma find_crlf_Cons: "find_crlf s = None \<Longrightarrow> c \<noteq> CHR 0x0D \<Longrightarrow> find_crlf (c # s) = None"
  by (cases s) auto

lemma field_at:
  assumes "find_crlf s = None" "c \<noteq> CHR 0x0D"
  shows "find_CRLF (pre @ c # s @ CRLF @ rest) (length pre) = Some (length pre + Suc (length s))"
    and "substr (pre @ c # s @ CRLF @ rest) (length pre + 1) (length pre + Suc (length s) - length pre - 1) = s"
    and "(pre @ c # s @ CRLF @ rest) ! length pre = c"
    and "length pre < length (pre @ c # s @ CRLF @ rest)"
proof -
  have "find_crlf ((c # s) @ CHR 0x0D # CHR 0x0A # rest) = Some (length (c # s))"
    using assms by (intro find_crlf_at_end find_crlf_Cons)
  then show "find_CRLF (pre @ c # s @ CRLF @ rest) (length pre) = Some (length pre + Suc (length s))"
    by (simp add: find_CRLF_def CRLF_def)
  show "substr (pre @ c # s @ CRLF @ rest) (length pre + 1) (length pre + Suc (length s) - length pre - 1) = s"
    by (simp add: substr_def)
qed simp_all

lemma star_not_CR: "CHR ''*'' \<noteq> CHR 0x0D" and dollar_not_CR: "CHR ''$'' \<noteq> CHR 0x0D"
  by simp_all

lemma bad_count_refused:
  assumes junk: "CHR ''*'' \<notin> set junk"
    and buf: "input_buffer c = junk @ CHR ''*'' # cnt @ CRLF @ rest"
    and nocr: "find_crlf cnt = None"
    and bad: "case stoi cnt of None \<Rightarrow> True | Some n \<Rightarrow> n \<le> 0"
  shows "process_commands exec c srv = (False, c, srv)"
proof -
  note f = field_at[OF nocr star_not_CR, of junk rest]
  have "frame_command (input_buffer c) (length junk) = Protocol_error"
    using f(1,2) bad unfolding buf
    by (simp add: frame_command_def split: option.splits)
  then have "process_loop exec c srv (length junk) = (False, c, srv)"
    using f(3,4) unfolding buf[symmetric]
    by (subst process_loop.simps) (simp add: buf)
  then show ?thesis
    using process_commands_skip[OF junk, of c "CHR ''*'' # cnt @ CRLF @ rest" exec srv] buf
    by simp
qed

lemma process_loop_refuses:
  "pos < length (input_buffer c) \<Longrightarrow> input_buffer c ! pos = CHR ''*'' \<Longrightarrow>
   frame_command (input_buffer c) pos = Protocol_error \<Longrightarrow>
   process_loop exec c srv pos = (False, c, srv)"
  by (subst process_loop.simps) simp

lemma parse_bulk_strings_good:
  assumes "cp < length buf" "buf ! cp = CHR ''$''" "find_CRLF buf cp = Some e"
    and "stoi (substr buf (cp + 1) (e - cp - 1)) = Some (int m)"
    and "e + 2 + m + 2 \<le> length buf"
  shows "parse_bulk_strings buf (Suc n) cp acc
           = parse_bulk_strings buf n (e + 2 + m + 2) (acc @ [substr buf (e + 2) m])"
  using assms by (simp add: Let_def)

lemma parse_bulk_strings_bad:
  assumes "cp < length buf" "buf ! cp = CHR ''$''" "find_CRLF buf cp = Some e"
    and "stoi (substr buf (cp + 1) (e - cp - 1)) = None"
  shows "parse_bulk_strings buf (Suc n) cp acc = Protocol_error"
  using assms by simp

lemma parse_bulk_strings_one:
  assumes "length a \<le> 2147483647"
  shows "parse_bulk_strings (pre @ encode (BulkString a) @ rest) (Suc n) (length pre) acc
           = parse_bulk_strings (pre @ encode (BulkString a) @ rest) n
               (length (pre @ encode (BulkString a))) (acc @ [a])"
proof -
  let ?hdr = "to_string (int (length a))"
  let ?buf = "pre @ CHR ''$'' # ?hdr @ CRLF @ (a @ CRLF @ rest)"
  define e where "e = length pre + Suc (length ?hdr)"
  have b: "pre @ encode (BulkString a) @ rest = ?buf" by simp
  note f = field_at[OF find_crlf_to_string dollar_not_CR, of pre "int (length a)" "a @ CRLF @ rest"]
  have f1: "find_CRLF ?buf (length pre) = Some e" unfolding e_def by (rule f(1))
  have f2: "substr ?buf (length pre + 1) (e - length pre - 1) = ?hdr" unfolding e_def by (rule f(2))
  have s: "stoi (substr ?buf (length pre + 1) (e - length pre - 1)) = Some (int (length a))"
    unfolding f2 by (rule stoi_length[OF assms])
  have l: "e + 2 + length a + 2 \<le> length ?buf" by (simp add: e_def CRLF_def)
  have e2: "e + 2 = length (pre @ CHR ''$'' # ?hdr @ CRLF)" by (simp add: e_def CRLF_def)
  have b3: "?buf = (pre @ CHR ''$'' # ?hdr @ CRLF) @ a @ (CRLF @ rest)" by simp
  have v: "substr ?buf (e + 2) (length a) = a" unfolding substr_def e2 b3 by simp
  have p: "e + 2 + length a + 2 = length (pre @ encode (BulkString a))"
    by (simp add: e_def CRLF_def)
  have "parse_bulk_strings ?buf (Suc n) (length pre) acc
          = parse_bulk_strings ?buf n (e + 2 + length a + 2) (acc @ [substr ?buf (e + 2) (length a)])"
    using f(4) f(3) f1 s l by (rule parse_bulk_strings_good)
  then show ?thesis unfolding v p b .
qed

lemma parse_bulk_strings_run:
  assumes "\<forall>a \<in> set as. length a \<le> 2147483647"
  shows "parse_bulk_strings (pre @ concat (map (\<lambda>a. encode (BulkString a)) as) @ rest)
             (length as + n) (length pre) acc
           = parse_bulk_strings (pre @ concat (map (\<lambda>a. encode (BulkString a)) as) @ rest) n
               (length (pre @ concat (map (\<lambda>a. encode (BulkString a)) as))) (acc @ as)"
  using assms
proof (induction as arbitrary: pre acc)
  case Nil
  then show ?case by simp
next
  case (Cons a as)
  let ?body = "concat (map (\<lambda>a. encode (BulkString a)) as)"
  let ?buf = "pre @ encode (BulkString a) @ (?body @ rest)"
  have b: "pre @ concat (map (\<lambda>a. encode (BulkString a)) (a # as)) @ rest = ?buf"
    by simp
  have b': "?buf = (pre @ encode (BulkString a)) @ ?body @ rest"
    by simp
  have la: "length a \<le> 2147483647" using Cons.prems by simp
  have "parse_bulk_strings ?buf (Suc (length as + n)) (length pre) acc
          = parse_bulk_strings ?buf (length as + n) (length (pre @ encode (BulkString a))) (acc @ [a])"
    by (rule parse_bulk_strings_one[OF la])
  also have "\<dots> = parse_bulk_strings ((pre @ encode (BulkString a)) @ ?body @ rest) n
        (length ((pre @ encode (BulkString a)) @ ?body)) ((acc @ [a]) @ as)"
    unfolding b' using Cons.prems by (intro Cons.IH) simp
  finally show ?case unfolding b by simp
qed

lemma bad_bulk_length_refused_at:
  assumes junk: "CHR ''*'' \<notin> set junk"
    and buf: "input_buffer c = junk @ CHR ''*'' # to_string (int k) @ CRLF
                @ concat (map (\<lambda>a. encode (BulkString a)) as) @ CHR ''$'' # len @ CRLF @ rest"
    and k: "length as < k" "k \<le> 2147483647"
    and as: "\<forall>a \<in> set as. length a \<le> 2147483647"
    and nocr: "find_crlf len = None"
    and bad: "stoi len = None"
  shows "process_commands exec c srv = (False, c, srv)"
proof -
  let ?hdr = "to_string (int k)"
  let ?body = "concat (map (\<lambda>a. encode (BulkString a)) as)"
  let ?pre = "junk @ CHR ''*'' # ?hdr @ CRLF"
  let ?tail = "CHR ''$'' # len @ CRLF @ rest"
  define e where "e = length junk + Suc (length ?hdr)"
  obtain n where n: "k = length as + Suc n"
    using k(1) by (metis add_Suc_right less_imp_Suc_add)
  have b1: "input_buffer c = junk @ CHR ''*'' # ?hdr @ CRLF @ (?body @ ?tail)"
    using buf by simp
  have b2: "input_buffer c = ?pre @ ?body @ ?tail"
    using buf by simp
  have b3: "input_buffer c = (?pre @ ?body) @ CHR ''$'' # len @ CRLF @ rest"
    using buf by simp
  note f = field_at[OF find_crlf_to_string star_not_CR, of junk "int k" "?body @ ?tail"]
  note g = field_at[OF nocr dollar_not_CR, of "?pre @ ?body" rest]
  have lp: "length ?pre = e + 2"
    by (simp add: CRLF_def e_def)
  have f1: "find_CRLF (input_buffer c) (length junk) = Some e"
    unfolding b1 e_def by (rule f(1))
  have f2: "substr (input_buffer c) (length junk + 1) (e - length junk - 1) = ?hdr"
    unfolding b1 e_def by (rule f(2))
  have f3: "input_buffer c ! length junk = CHR ''*''" "length junk < length (input_buffer c)"
    unfolding b1 by (rule f(3), rule f(4))
  have s1: "stoi (substr (input_buffer c) (length junk + 1) (e - length junk - 1)) = Some (int k)"
    unfolding f2 by (rule stoi_length[OF k(2)])
  have g2: "substr (input_buffer c) (length (?pre @ ?body) + 1)
              (length (?pre @ ?body) + Suc (length len) - length (?pre @ ?body) - 1) = len"
    unfolding b3 by (rule g(2))
  have s2: "stoi (substr (input_buffer c) (length (?pre @ ?body) + 1)
              (length (?pre @ ?body) + Suc (length len) - length (?pre @ ?body) - 1)) = None"
    unfolding g2 by (rule bad)
  have "parse_bulk_strings (input_buffer c) (length as + Suc n) (length ?pre) []
          = parse_bulk_strings (input_buffer c) (Suc n) (length (?pre @ ?body)) ([] @ as)"
    unfolding b2 by (rule parse_bulk_strings_run[OF as])
  also have "\<dots> = Protocol_error"
  proof (rule parse_bulk_strings_bad)
    show "length (?pre @ ?body) < length (input_buffer c)" unfolding b3 by (rule g(4))
    show "input_buffer c ! length (?pre @ ?body) = CHR ''$''" unfolding b3 by (rule g(3))
    show "find_CRLF (input_buffer c) (length (?pre @ ?body))
            = Some (length (?pre @ ?body) + Suc (length len))"
      unfolding b3 by (rule g(1))
    show "stoi (substr (input_buffer c) (length (?pre @ ?body) + 1)
              (length (?pre @ ?body) + Suc (length len) - length (?pre @ ?body) - 1)) = None"
      by (rule s2)
  qed
  finally have "parse_bulk_strings (input_buffer c) (length as + Suc n) (length ?pre) []
      = Protocol_error" .
  then have loop: "parse_bulk_strings (input_buffer c) k (e + 2) [] = Protocol_error"
    unfolding lp n[symmetric] .
  have "frame_command (input_buffer c) (length junk) = Protocol_error"
    using f1 s1 loop k(1) by (simp add: frame_command_def)
  then have "process_loop exec c srv (length junk) = (False, c, srv)"
    using f3 by (intro process_loop_refuses)
  then show ?thesis
    using process_commands_skip[OF junk b1, of exec srv] by simp
qed

text \<open>
  Claim C4, amended: \<^verbatim>\<open>process_commands\<close> skips the bytes in front of the next \<^verbatim>\<open>*\<close>
  without an error: a buffer with no \<^verbatim>\<open>*\<close> is left as it is and the result is success,
  so the connection stays open. It returns failure, on which the server closes the
  connection, when the array size after the first \<^verbatim>\<open>*\<close> is refused by \<^verbatim>\<open>std::stoi\<close> or
  is not positive, and when the length of one of the bulk strings of that array, behind
  complete bulk strings, is refused by \<^verbatim>\<open>std::stoi\<close>. \<^verbatim>\<open>RespProtocol::parse\<close>, which \<^verbatim>\<open>process_commands\<close> does not call,
  throws on a leading byte that starts none of the five types.
\<close>

theorem framing_skips_and_refuses:
  "(CHR ''*'' \<notin> set (input_buffer c) \<longrightarrow> process_commands exec c srv = (True, c, srv)) \<and>
   (CHR ''*'' \<notin> set junk \<and> input_buffer c = junk @ rest \<longrightarrow>
      process_commands exec c srv = process_loop exec c srv (length junk)) \<and>
   (CHR ''*'' \<notin> set junk \<and> input_buffer c = junk @ CHR ''*'' # cnt @ CRLF @ rest \<and>
    find_crlf cnt = None \<and> (stoi cnt = None \<or> (\<exists>n \<le> 0. stoi cnt = Some n)) \<longrightarrow>
      process_commands exec c srv = (False, c, srv)) \<and>
   (CHR ''*'' \<notin> set junk \<and>
    input_buffer c = junk @ CHR ''*'' # to_string (int k) @ CRLF
      @ concat (map (\<lambda>a. encode (BulkString a)) as) @ CHR ''$'' # len @ CRLF @ rest \<and>
    length as < k \<and> k \<le> 2147483647 \<and> (\<forall>a \<in> set as. length a \<le> 2147483647) \<and>
    find_crlf len = None \<and> stoi len = None \<longrightarrow>
      process_commands exec c srv = (False, c, srv)) \<and>
   (b \<noteq> CHR ''+'' \<and> b \<noteq> CHR ''-'' \<and> b \<noteq> CHR '':'' \<and> b \<noteq> CHR ''$'' \<and> b \<noteq> CHR ''*'' \<longrightarrow>
      parse (b # data) = Inl ''Invalid RESP data type'')"
proof (intro conjI impI)
  assume a: "CHR ''*'' \<notin> set (input_buffer c)"
  have "process_commands exec c srv = process_loop exec c srv (length (input_buffer c))"
    using a by (intro process_commands_skip[where rest = "[]"]) simp_all
  then show "process_commands exec c srv = (True, c, srv)"
    by (simp add: process_loop_end)
next
  assume "CHR ''*'' \<notin> set junk \<and> input_buffer c = junk @ rest"
  then show "process_commands exec c srv = process_loop exec c srv (length junk)"
    by (intro process_commands_skip) simp_all
next
  assume a: "CHR ''*'' \<notin> set junk \<and> input_buffer c = junk @ CHR ''*'' # cnt @ CRLF @ rest \<and>
    find_crlf cnt = None \<and> (stoi cnt = None \<or> (\<exists>n \<le> 0. stoi cnt = Some n))"
  then have "case stoi cnt of None \<Rightarrow> True | Some n \<Rightarrow> n \<le> 0"
    by (auto split: option.splits)
  then show "process_commands exec c srv = (False, c, srv)"
    using a by (intro bad_count_refused[of junk c cnt rest]) simp_all
next
  assume "CHR ''*'' \<notin> set junk \<and>
    input_buffer c = junk @ CHR ''*'' # to_string (int k) @ CRLF
      @ concat (map (\<lambda>a. encode (BulkString a)) as) @ CHR ''$'' # len @ CRLF @ rest \<and>
    length as < k \<and> k \<le> 2147483647 \<and> (\<forall>a \<in> set as. length a \<le> 2147483647) \<and>
    find_crlf len = None \<and> stoi len = None"
  then show "process_commands exec c srv = (False, c, srv)"
    by (intro bad_bulk_length_refused_at[of junk c k as len rest]) simp_all
next
  assume "b \<noteq> CHR ''+'' \<and> b \<noteq> CHR ''-'' \<and> b \<noteq> CHR '':'' \<and> b \<noteq> CHR ''$'' \<and> b \<noteq> CHR ''*''"
  then show "parse (b # data) = Inl ''Invalid RESP data type''"
    by (simp add: parse_Cons)
qed

lemma stoi_abc: "stoi ''abc'' = None" and stoi_z: "stoi ''z'' = None" and stoi_0: "stoi ''0'' = Some 0"
  by code_simp+

theorem framing_skips_and_refuses_witness:
  "process_commands (server_exec 0) (idle_connection (''PING'' @ CRLF)) (StorageEngine_new 1024)
     = (True, idle_connection (''PING'' @ CRLF), StorageEngine_new 1024) \<and>
   process_commands (server_exec 0) (idle_connection (''xy*abc'' @ CRLF)) (StorageEngine_new 1024)
     = (False, idle_connection (''xy*abc'' @ CRLF), StorageEngine_new 1024) \<and>
   process_commands (server_exec 0) (idle_connection (''xy*0'' @ CRLF)) (StorageEngine_new 1024)
     = (False, idle_connection (''xy*0'' @ CRLF), StorageEngine_new 1024) \<and>
   process_commands (server_exec 0)
       (idle_connection (''*2'' @ CRLF @ ''$3'' @ CRLF @ ''GET'' @ CRLF @ ''$z'' @ CRLF @ ''k''))
       (StorageEngine_new 1024)
     = (False, idle_connection (''*2'' @ CRLF @ ''$3'' @ CRLF @ ''GET'' @ CRLF @ ''$z'' @ CRLF @ ''k''),
        StorageEngine_new 1024) \<and>
   parse ''PING'' = Inl ''Invalid RESP data type''"
proof -
  let ?e = "server_exec 0" and ?s = "StorageEngine_new 1024"
  have n: "CHR ''*'' \<notin> set (input_buffer (idle_connection (''PING'' @ CRLF)))"
    by (simp add: idle_connection_def CRLF_def)
  have j: "CHR ''*'' \<notin> set ''xy''" "CHR ''*'' \<notin> set []" by simp_all
  have b1: "input_buffer (idle_connection (''xy*abc'' @ CRLF)) = ''xy'' @ CHR ''*'' # ''abc'' @ CRLF @ []"
    by (simp add: idle_connection_def)
  have s1: "find_crlf ''abc'' = None" "stoi ''abc'' = None \<or> (\<exists>n \<le> 0. stoi ''abc'' = Some n)"
    by (simp_all add: stoi_abc)
  have b2: "input_buffer (idle_connection (''xy*0'' @ CRLF)) = ''xy'' @ CHR ''*'' # ''0'' @ CRLF @ []"
    by (simp add: idle_connection_def)
  have s2: "find_crlf ''0'' = None" "stoi ''0'' = None \<or> (\<exists>n \<le> 0. stoi ''0'' = Some n)"
    by (simp_all add: stoi_0)
  have b3: "input_buffer (idle_connection (''*2'' @ CRLF @ ''$3'' @ CRLF @ ''GET'' @ CRLF @ ''$z'' @ CRLF @ ''k''))
              = [] @ CHR ''*'' # to_string (int 2) @ CRLF
                  @ concat (map (\<lambda>a. encode (BulkString a)) [''GET'']) @ CHR ''$'' # ''z'' @ CRLF @ ''k''"
    by code_simp
  have s3: "length [''GET''] < (2::nat)" "(2::nat) \<le> 2147483647"
    "\<forall>a \<in> set [''GET'']. length a \<le> 2147483647" "find_crlf ''z'' = None" "stoi ''z'' = None"
    by (simp_all add: stoi_z)
  note t1 = framing_skips_and_refuses[THEN conjunct1, rule_format]
  note t3 = framing_skips_and_refuses[THEN conjunct2, THEN conjunct2, THEN conjunct1, rule_format]
  note t4 = framing_skips_and_refuses[THEN conjunct2, THEN conjunct2, THEN conjunct2, THEN conjunct1,
      rule_format]
  note t5 = framing_skips_and_refuses[THEN conjunct2, THEN conjunct2, THEN conjunct2, THEN conjunct2,
      rule_format]
  have r0: "process_commands ?e (idle_connection (''PING'' @ CRLF)) ?s
      = (True, idle_connection (''PING'' @ CRLF), ?s)"
    by (rule t1[OF n])
  have r1: "process_commands ?e (idle_connection (''xy*abc'' @ CRLF)) ?s
      = (False, idle_connection (''xy*abc'' @ CRLF), ?s)"
    by (rule t3[of "''xy''" _ "''abc''" "[]"]) (intro conjI j(1) b1 s1)
  have r2: "process_commands ?e (idle_connection (''xy*0'' @ CRLF)) ?s
      = (False, idle_connection (''xy*0'' @ CRLF), ?s)"
    by (rule t3[of "''xy''" _ "''0''" "[]"]) (intro conjI j(1) b2 s2)
  have r3: "process_commands ?e
        (idle_connection (''*2'' @ CRLF @ ''$3'' @ CRLF @ ''GET'' @ CRLF @ ''$z'' @ CRLF @ ''k'')) ?s
      = (False, idle_connection (''*2'' @ CRLF @ ''$3'' @ CRLF @ ''GET'' @ CRLF @ ''$z'' @ CRLF @ ''k''), ?s)"
    by (rule t4[of "[]" _ 2 "[''GET'']" "''z''" "''k''"]) (intro conjI j(2) b3 s3)
  have r4: "parse ''PING'' = Inl ''Invalid RESP data type''"
    by (rule t5) simp
  show ?thesis by (intro conjI r0 r1 r2 r3 r4)
qed

text \<open>
  Claim C4 as stated, a failure on a leading byte other than \<^verbatim>\<open>*\<close>, fails: on the
  buffer \<^verbatim>\<open>PING\r\n\<close> the result is success and nothing changes; with a GET command
  behind it, the command is run and answered.
\<close>

theorem unknown_leading_bytes_skipped:
  "process_commands (server_exec 0) (idle_connection (''PING'' @ CRLF)) (StorageEngine_new 1024)
     = (True, idle_connection (''PING'' @ CRLF), StorageEngine_new 1024) \<and>
   fst (process_commands (server_exec 0)
     (idle_connection (''PING'' @ CRLF @ ''*2'' @ CRLF @ ''$3'' @ CRLF @ ''GET'' @ CRLF @ ''$1'' @ CRLF @ ''k'' @ CRLF))
     (StorageEngine_new 1024)) = True \<and>
   fst (snd (process_commands (server_exec 0)
     (idle_connection (''PING'' @ CRLF @ ''*2'' @ CRLF @ ''$3'' @ CRLF @ ''GET'' @ CRLF @ ''$1'' @ CRLF @ ''k'' @ CRLF))
     (StorageEngine_new 1024)))
     = \<lparr>conn_state = CONNECTED, input_buffer = [], output_queue = [''$-1'' @ CRLF]\<rparr>"
  by code_simp

end
